theory Spec2Isabelle
  imports Complex_Main "HOL-Library.Sublist" "HOL-Library.Monad_Syntax" "HOL-Library.Log_Nat"
begin

section \<open>Strings and the character tables of Python\<close>

text \<open>
  The program (\<^verbatim>\<open>resume_parser.py\<close>) works on Python \<^verbatim>\<open>str\<close> values: sequences of Unicode
  code points. A code point is modelled as a natural number and a string as a list of
  them; \<open>ustr\<close> embeds a literal of the source.

  The program consults Python's character database at every step: \<^verbatim>\<open>str.strip\<close> and the
  classes \<^verbatim>\<open>\s\<close>, \<^verbatim>\<open>\d\<close>, \<^verbatim>\<open>\w\<close> of the module \<^verbatim>\<open>re\<close>, \<^verbatim>\<open>str.lower\<close>, \<^verbatim>\<open>str.upper\<close>, and the
  matching of a letter under \<^verbatim>\<open>re.IGNORECASE\<close>. The database belongs to the language, not
  to the repository, and it covers the whole of Unicode. It is a parameter of the model,
  the record \<open>unicode_tables\<close>, and every function that consults it takes it as its first
  argument. The two case conversions are functions on strings, since they can change the
  length of a string.
\<close>

type_synonym uchar = nat
type_synonym ustring = "nat list"

definition ustr :: "string \<Rightarrow> ustring" where
  "ustr s = map of_char s"

record unicode_tables =
  isspace :: "uchar \<Rightarrow> bool"  \<comment> \<open>\<^verbatim>\<open>str.isspace\<close>, the class \<^verbatim>\<open>\s\<close>, what \<^verbatim>\<open>str.strip\<close> removes\<close>
  isdecimal :: "uchar \<Rightarrow> bool"  \<comment> \<open>the class \<^verbatim>\<open>\d\<close>\<close>
  isalnum :: "uchar \<Rightarrow> bool"  \<comment> \<open>the class \<^verbatim>\<open>\w\<close> without the underscore\<close>
  str_lower :: "ustring \<Rightarrow> ustring"  \<comment> \<open>\<^verbatim>\<open>str.lower\<close>\<close>
  str_upper :: "ustring \<Rightarrow> ustring"  \<comment> \<open>\<^verbatim>\<open>str.upper\<close>\<close>
  ignorecase_eq :: "uchar \<Rightarrow> uchar \<Rightarrow> bool"
    \<comment> \<open>\<open>ignorecase_eq x c\<close>: the character \<open>x\<close> of a pattern matches the character \<open>c\<close> of
        the text under \<^verbatim>\<open>re.IGNORECASE\<close>\<close>

definition ascii :: "ustring \<Rightarrow> bool" where
  "ascii s = list_all (\<lambda>c. c < 128) s"

definition ascii_space :: "uchar \<Rightarrow> bool" where
  \<comment> \<open>TAB, LF, VT, FF, CR, FS, GS, RS, US, SPACE\<close>
  "ascii_space c = ((9 \<le> c \<and> c \<le> 13) \<or> (28 \<le> c \<and> c \<le> 32))"

definition ascii_digit :: "uchar \<Rightarrow> bool" where
  "ascii_digit c = (48 \<le> c \<and> c \<le> 57)"

definition ascii_alnum :: "uchar \<Rightarrow> bool" where
  "ascii_alnum c = ((48 \<le> c \<and> c \<le> 57) \<or> (65 \<le> c \<and> c \<le> 90) \<or> (97 \<le> c \<and> c \<le> 122))"

definition ascii_lower :: "uchar \<Rightarrow> uchar" where
  "ascii_lower c = (if 65 \<le> c \<and> c \<le> 90 then c + 32 else c)"

definition ascii_upper :: "uchar \<Rightarrow> uchar" where
  "ascii_upper c = (if 97 \<le> c \<and> c \<le> 122 then c - 32 else c)"

text \<open>
  What the statements below assume of the database, where they assume anything: its
  entries for the ASCII range, and that lower-casing leaves a string of whitespace as it
  is (no whitespace character is cased). Nothing is assumed of other characters.
\<close>

definition python_tables :: "unicode_tables \<Rightarrow> bool" where
  "python_tables U =
     ((\<forall>c<128. isspace U c = ascii_space c)
      \<and> (\<forall>c<128. isdecimal U c = ascii_digit c)
      \<and> (\<forall>c<128. isalnum U c = ascii_alnum c)
      \<and> (\<forall>s. ascii s \<longrightarrow> str_lower U s = map ascii_lower s)
      \<and> (\<forall>s. ascii s \<longrightarrow> str_upper U s = map ascii_upper s)
      \<and> (\<forall>x<128. \<forall>c<128. ignorecase_eq U x c = (ascii_lower x = ascii_lower c))
      \<and> (\<forall>s. list_all (isspace U) s \<longrightarrow> str_lower U s = s))"

text \<open>
  One value of the tables, to run the model on examples written in ASCII: it has the
  entries of the ASCII range and classifies no other character. No statement about all
  inputs is made for it alone.
\<close>

definition ascii_tables :: unicode_tables where
  "ascii_tables =
     \<lparr>isspace = ascii_space, isdecimal = ascii_digit, isalnum = ascii_alnum,
      str_lower = map ascii_lower, str_upper = map ascii_upper,
      ignorecase_eq = (\<lambda>x c. ascii_lower x = ascii_lower c)\<rparr>"

definition newline :: uchar where
  "newline = 10"

definition is_word :: "unicode_tables \<Rightarrow> uchar \<Rightarrow> bool" where
  \<comment> \<open>\<^verbatim>\<open>\w\<close>: alphanumeric characters and the underscore\<close>
  "is_word U c = (isalnum U c \<or> c = 95)"

definition lstrip :: "unicode_tables \<Rightarrow> ustring \<Rightarrow> ustring" where
  "lstrip U s = dropWhile (isspace U) s"

definition rstrip :: "unicode_tables \<Rightarrow> ustring \<Rightarrow> ustring" where
  "rstrip U s = rev (dropWhile (isspace U) (rev s))"

definition strip :: "unicode_tables \<Rightarrow> ustring \<Rightarrow> ustring" where
  \<comment> \<open>\<^verbatim>\<open>s.strip()\<close>\<close>
  "strip U s = rstrip U (lstrip U s)"

fun split_nl :: "ustring \<Rightarrow> ustring list" where
  \<comment> \<open>\<^verbatim>\<open>s.split('\n')\<close>: the empty string gives one empty line\<close>
  "split_nl [] = [[]]"
| "split_nl (c # cs) =
     (if c = newline then [] # split_nl cs
      else (case split_nl cs of [] \<Rightarrow> [[c]] | l # ls \<Rightarrow> (c # l) # ls))"

fun join_nl :: "ustring list \<Rightarrow> ustring" where
  \<comment> \<open>\<^verbatim>\<open>"\n".join(xs)\<close>\<close>
  "join_nl [] = []"
| "join_nl [x] = x"
| "join_nl (x # y # ys) = x @ [newline] @ join_nl (y # ys)"

fun contains :: "ustring \<Rightarrow> ustring \<Rightarrow> bool" where
  \<comment> \<open>\<^verbatim>\<open>needle in hay\<close> on strings\<close>
  "contains needle [] = (needle = [])"
| "contains needle (c # cs) = (prefix needle (c # cs) \<or> contains needle cs)"

section \<open>Regular expressions\<close>

text \<open>
  The patterns of the program are built from a few constructs. Each is modelled as a
  matcher: applied to the text at the current position it returns the remaining text
  after every way of matching there, the preferred (greedy) way first. A pattern matches
  at a position when the list is not empty.
\<close>

type_synonym matcher = "ustring \<Rightarrow> ustring list"

definition re_class :: "(uchar \<Rightarrow> bool) \<Rightarrow> matcher" where
  \<comment> \<open>one character of a class\<close>
  "re_class P s = (case s of [] \<Rightarrow> [] | c # cs \<Rightarrow> if P c then [cs] else [])"

definition re_seq :: "matcher \<Rightarrow> matcher \<Rightarrow> matcher" where
  \<comment> \<open>concatenation\<close>
  "re_seq m1 m2 s = concat (map m2 (m1 s))"

definition re_opt :: "matcher \<Rightarrow> matcher" where
  \<comment> \<open>\<^verbatim>\<open>m?\<close>\<close>
  "re_opt m s = m s @ [s]"

definition re_atleast :: "nat \<Rightarrow> (uchar \<Rightarrow> bool) \<Rightarrow> matcher" where
  \<comment> \<open>\<^verbatim>\<open>[class]{n,}\<close>: at least \<open>n\<close> characters of the class, the longest run first\<close>
  "re_atleast n P s = map (\<lambda>k. drop k s) (rev [n..<Suc (length (takeWhile P s))])"

definition re_star :: "(uchar \<Rightarrow> bool) \<Rightarrow> matcher" where
  \<comment> \<open>\<^verbatim>\<open>[class]*\<close>\<close>
  "re_star P = re_atleast 0 P"

fun re_lit_ci :: "unicode_tables \<Rightarrow> ustring \<Rightarrow> matcher" where
  \<comment> \<open>a literal under \<^verbatim>\<open>re.IGNORECASE\<close>\<close>
  "re_lit_ci U [] s = [s]"
| "re_lit_ci U (x # xs) [] = []"
| "re_lit_ci U (x # xs) (c # cs) =
     (if ignorecase_eq U x c then re_lit_ci U xs cs else [])"

definition re_end :: matcher where
  \<comment> \<open>\<^verbatim>\<open>$\<close>: the end of the text, or just before a newline that ends the text\<close>
  "re_end s = (if s = [] \<or> s = [newline] then [s] else [])"

definition re_search :: "matcher \<Rightarrow> ustring \<Rightarrow> bool" where
  \<comment> \<open>\<^verbatim>\<open>re.search\<close>: a match starting at some position of the text\<close>
  "re_search m s = (\<exists>t \<in> set (rev (suffixes s)). m t \<noteq> [])"

definition re_search_bol :: "matcher \<Rightarrow> ustring \<Rightarrow> bool" where
  \<comment> \<open>\<^verbatim>\<open>re.search\<close> of a pattern that starts with \<^verbatim>\<open>^\<close>: only the start of the text\<close>
  "re_search_bol m s = (m s \<noteq> [])"

function re_sub :: "matcher \<Rightarrow> ustring \<Rightarrow> ustring \<Rightarrow> ustring" where
  \<comment> \<open>\<^verbatim>\<open>re.sub(pattern, repl, s)\<close> for a pattern that matches no empty text: at each
      position the preferred match is replaced and the scan goes on behind it; where
      nothing matches, the character is kept\<close>
  "re_sub m repl s =
     (case s of
        [] \<Rightarrow> []
      | c # cs \<Rightarrow>
          (case m s of
             [] \<Rightarrow> c # re_sub m repl cs
           | r # _ \<Rightarrow> if length r < length s then repl @ re_sub m repl r
                      else c # re_sub m repl cs))"
  by pat_completeness auto
termination
  by (relation "measure (\<lambda>(m, repl, s). length s)") auto

declare re_sub.simps [simp del]

section \<open>Normalizer\<close>

definition normalize_text :: "unicode_tables \<Rightarrow> ustring \<Rightarrow> ustring" where
  "normalize_text U text =
     (let text = re_sub (re_atleast 1 (isspace U)) (ustr '' '') (strip U (str_lower U text))
      in re_sub (re_class (\<lambda>c. \<not> (is_word U c \<or> isspace U c))) [] text)"

text \<open>
  The second step as the specification words it: every run of whitespace characters
  collapses to a single space.
\<close>

function spec_collapse :: "(uchar \<Rightarrow> bool) \<Rightarrow> ustring \<Rightarrow> ustring" where
  "spec_collapse P [] = []"
| "spec_collapse P (c # cs) =
     (if P c then 32 # spec_collapse P (dropWhile P cs) else c # spec_collapse P cs)"
  by pat_completeness auto
termination
  by (relation "measure (\<lambda>(P, s). length s)") (auto simp: length_dropWhile_le less_Suc_eq_le)


section \<open>Edit-distance engine\<close>

text \<open>
  Reading a list at an index raises \<^verbatim>\<open>IndexError\<close> in Python when the index is out of
  range; in the model of \<^verbatim>\<open>levenshtein_distance\<close> this is the value \<open>None\<close>. The function
  compares the elements of its arguments and nothing else, so it is modelled for
  sequences of any type.
\<close>

definition py_index :: "'a list \<Rightarrow> nat \<Rightarrow> 'a option" where
  \<comment> \<open>\<^verbatim>\<open>xs[i]\<close> for an index that is not negative\<close>
  "py_index xs i = (if i < length xs then Some (xs ! i) else None)"

definition py_last :: "'a list \<Rightarrow> 'a option" where
  \<comment> \<open>\<^verbatim>\<open>xs[-1]\<close>\<close>
  "py_last xs = (if xs = [] then None else Some (last xs))"

fun inner_loop :: "'a \<Rightarrow> nat list \<Rightarrow> 'a list \<Rightarrow> nat \<Rightarrow> nat list \<Rightarrow> nat list option" where
  \<comment> \<open>\<^verbatim>\<open>for j, c2 in enumerate(s2)\<close>, from index \<open>j\<close> on, building \<^verbatim>\<open>current_row\<close>\<close>
  "inner_loop c1 previous_row [] j current_row = Some current_row"
| "inner_loop c1 previous_row (c2 # rest) j current_row =
     do {
       p1 \<leftarrow> py_index previous_row (j + 1);
       c0 \<leftarrow> py_index current_row j;
       p0 \<leftarrow> py_index previous_row j;
       let insertions = p1 + 1;
       let deletions = c0 + 1;
       let substitutions = p0 + (if c1 \<noteq> c2 then 1 else 0);
       inner_loop c1 previous_row rest (j + 1)
         (current_row @ [min insertions (min deletions substitutions)])
     }"

fun outer_loop :: "'a list \<Rightarrow> nat \<Rightarrow> 'a list \<Rightarrow> nat list \<Rightarrow> nat list option" where
  \<comment> \<open>\<^verbatim>\<open>for i, c1 in enumerate(s1)\<close>, from index \<open>i\<close> on\<close>
  "outer_loop [] i s2 previous_row = Some previous_row"
| "outer_loop (c1 # rest) i s2 previous_row =
     do {
       current_row \<leftarrow> inner_loop c1 previous_row s2 0 [i + 1];
       outer_loop rest (i + 1) s2 current_row
     }"

function levenshtein_distance :: "'a list \<Rightarrow> 'a list \<Rightarrow> nat option" where
  "levenshtein_distance s1 s2 =
     (if length s1 < length s2 then levenshtein_distance s2 s1
      else if length s2 = 0 then Some (length s1)
      else do {
        previous_row \<leftarrow> outer_loop s1 0 s2 [0..<length s2 + 1];
        py_last previous_row
      })"
  by pat_completeness auto
termination
  by (relation "measure (\<lambda>(s1, s2). if length s1 < length s2 then 1 else 0)") auto

declare levenshtein_distance.simps [simp del]

text \<open>
  The reference the engine is compared with: the edit distance with unit costs, by
  recursion on the two sequences.
\<close>

fun edit_distance :: "'a list \<Rightarrow> 'a list \<Rightarrow> nat" where
  "edit_distance [] ys = length ys"
| "edit_distance (x # xs) [] = Suc (length xs)"
| "edit_distance (x # xs) (y # ys) =
     min (edit_distance xs (y # ys) + 1)
       (min (edit_distance (x # xs) ys + 1)
          (edit_distance xs ys + (if x \<noteq> y then 1 else 0)))"

definition edit_row :: "'a list \<Rightarrow> 'a list \<Rightarrow> nat list" where
  \<comment> \<open>the row of distances from \<open>xs\<close> to every prefix of \<open>s2\<close>, both read backwards\<close>
  "edit_row xs s2 = map (\<lambda>j. edit_distance xs (rev (take j s2))) [0..<length s2 + 1]"

inductive edits :: "nat \<Rightarrow> 'a list \<Rightarrow> 'a list \<Rightarrow> bool" where
  \<comment> \<open>\<open>edits n xs ys\<close>: some sequence of \<open>n\<close> insertions, deletions and substitutions
      turns \<open>xs\<close> into \<open>ys\<close>\<close>
  edits_Nil: "edits 0 [] []"
| edits_del: "edits n xs ys \<Longrightarrow> edits (Suc n) (x # xs) ys"
| edits_ins: "edits n xs ys \<Longrightarrow> edits (Suc n) xs (y # ys)"
| edits_sub: "edits n xs ys \<Longrightarrow> edits (n + (if x \<noteq> y then 1 else 0)) (x # xs) (y # ys)"

section \<open>Floating-point numbers\<close>

text \<open>
  A Python \<^verbatim>\<open>float\<close> is an IEEE 754 double. A finite double is modelled by the rational
  number it denotes, and an operation by the exact operation followed by the rounding of
  its result to the nearest double, a tie going to the double with an even significand:
  \<open>to_double\<close>. A double has a significand of 53 bits, and the exponent of its last bit is
  at least \<open>-1074\<close>. Results of magnitude \<open>2 ^ 1024\<close> and more, which overflow, do not occur
  in this program: its floats lie between 0 and 100.
\<close>

definition round_half_even :: "rat \<Rightarrow> int" where
  \<comment> \<open>the nearest integer, a tie going to the even one\<close>
  "round_half_even y =
     (let f = \<lfloor>y\<rfloor>; r = y - of_int f
      in if r < 1 / 2 then f else if 1 / 2 < r then f + 1
         else if even f then f else f + 1)"

definition ilog2 :: "rat \<Rightarrow> int" where
  \<comment> \<open>for a positive \<open>x\<close>, the \<open>k\<close> with \<open>2 ^ k \<le> x < 2 ^ (k + 1)\<close>\<close>
  "ilog2 x =
     (let (p, q) = quotient_of x; k = bitlen p - bitlen q
      in if 2 powi k \<le> x then k else k - 1)"

definition to_double :: "rat \<Rightarrow> rat" where
  "to_double x =
     (if x = 0 then 0
      else let e = max (ilog2 \<bar>x\<bar> - 52) (- 1074)
           in of_int (round_half_even (x / 2 powi e)) * 2 powi e)"

definition int_truediv :: "nat \<Rightarrow> nat \<Rightarrow> rat" where
  \<comment> \<open>\<^verbatim>\<open>a / b\<close> on two integers, for \<open>b\<close> other than 0: the quotient, correctly rounded\<close>
  "int_truediv a b = to_double (of_nat a / of_nat b)"

definition float_sub :: "rat \<Rightarrow> rat \<Rightarrow> rat" where
  "float_sub a b = to_double (a - b)"

definition float_mul :: "rat \<Rightarrow> rat \<Rightarrow> rat" where
  "float_mul a b = to_double (a * b)"

definition py_round2 :: "rat \<Rightarrow> rat" where
  \<comment> \<open>\<^verbatim>\<open>round(x, 2)\<close> on a float: the exact value of \<open>x\<close> is rounded to two decimals, a tie
      going to the even last digit, and the decimal number is converted to the nearest
      double\<close>
  "py_round2 x = to_double (of_int (round_half_even (x * 100)) / 100)"

section \<open>Accuracy scorer\<close>

text \<open>
  The result is a tuple of three or of five components, depending on the branch taken;
  the model has one constructor for each shape. The score is a float.
\<close>

datatype accuracy_result =
    Tuple3 rat ustring ustring
  | Tuple5 rat ustring ustring nat nat

definition calculate_accuracy ::
    "unicode_tables \<Rightarrow> ustring \<Rightarrow> ustring \<Rightarrow> accuracy_result option" where
  "calculate_accuracy U extracted_text ground_truth_text =
     (let extracted_norm = normalize_text U extracted_text;
          ground_truth_norm = normalize_text U ground_truth_text
      in if extracted_norm = [] \<or> ground_truth_norm = []
         then Some (Tuple3 0 extracted_norm ground_truth_norm)
         else do {
           distance \<leftarrow> levenshtein_distance extracted_norm ground_truth_norm;
           let max_length = max (length extracted_norm) (length ground_truth_norm);
           let accuracy = (if max_length > 0
                           then float_mul (float_sub 1 (int_truediv distance max_length)) 100
                           else 0);
           Some (Tuple5 (py_round2 accuracy) extracted_norm ground_truth_norm
                   distance max_length)
         })"

definition score :: "accuracy_result \<Rightarrow> rat" where
  \<comment> \<open>the first component of the result\<close>
  "score r = (case r of Tuple3 a _ _ \<Rightarrow> a | Tuple5 a _ _ _ _ \<Rightarrow> a)"

definition unpack5 :: "accuracy_result \<Rightarrow> (rat \<times> ustring \<times> ustring \<times> nat \<times> nat) option" where
  \<comment> \<open>the assignment \<^verbatim>\<open>accuracy, extracted_norm, ground_truth_norm, distance, max_length = ...\<close>
      of \<^verbatim>\<open>main\<close>; \<open>None\<close> is the \<^verbatim>\<open>ValueError\<close> of unpacking a tuple of another length\<close>
  "unpack5 r = (case r of Tuple3 _ _ _ \<Rightarrow> None | Tuple5 a e g d m \<Rightarrow> Some (a, e, g, d, m))"

section \<open>Section segmenter\<close>

definition section_headers :: "ustring list" where
  "section_headers = map ustr
     [''education'', ''academic background'', ''qualifications'',
      ''experience'', ''work experience'', ''employment'',
      ''projects'', ''personal projects'',
      ''technical skills'', ''skills'', ''key skills'',
      ''contact'', ''contact information'',
      ''references'', ''hackathons'',
      ''extracurricular activities'', ''activities'']"

definition header_pattern :: "unicode_tables \<Rightarrow> ustring \<Rightarrow> matcher" where
  \<comment> \<open>\<^verbatim>\<open>r'^\s*' + re.escape(header) + r'\s*:?\s*$'\<close>, after the \<^verbatim>\<open>^\<close>\<close>
  "header_pattern U header =
     re_seq (re_star (isspace U))
       (re_seq (re_lit_ci U header)
          (re_seq (re_star (isspace U))
             (re_seq (re_opt (re_class (\<lambda>c. c = 58)))
                (re_seq (re_star (isspace U)) re_end))))"

fun match_header :: "unicode_tables \<Rightarrow> ustring list \<Rightarrow> ustring \<Rightarrow> ustring option" where
  \<comment> \<open>\<^verbatim>\<open>for header in section_headers\<close>: the label of the first header that matches\<close>
  "match_header U [] line = None"
| "match_header U (header # rest) line =
     (if re_search_bol (header_pattern U header) line then Some (str_upper U header)
      else match_header U rest line)"

text \<open>
  An \<^verbatim>\<open>OrderedDict\<close> is a list of keys with their values, in insertion order.
  Assigning to a key that is present keeps its place; \<^verbatim>\<open>sections[k].append(line)\<close> raises
  \<^verbatim>\<open>KeyError\<close> (\<open>None\<close>) when the key is absent.
\<close>

type_synonym section_map = "(ustring \<times> ustring list) list"

fun od_set :: "ustring \<Rightarrow> ustring list \<Rightarrow> section_map \<Rightarrow> section_map" where
  \<comment> \<open>\<^verbatim>\<open>sections[k] = v\<close>\<close>
  "od_set k v [] = [(k, v)]"
| "od_set k v ((k', v') # rest) =
     (if k' = k then (k, v) # rest else (k', v') # od_set k v rest)"

fun od_append :: "ustring \<Rightarrow> ustring \<Rightarrow> section_map \<Rightarrow> section_map option" where
  \<comment> \<open>\<^verbatim>\<open>sections[k].append(line)\<close>\<close>
  "od_append k line [] = None"
| "od_append k line ((k', v') # rest) =
     (if k' = k then Some ((k', v' @ [line]) # rest)
      else map_option (\<lambda>r. (k', v') # r) (od_append k line rest))"

fun detect_loop ::
    "unicode_tables \<Rightarrow> ustring list \<Rightarrow> ustring \<Rightarrow> section_map \<Rightarrow> section_map option" where
  \<comment> \<open>\<^verbatim>\<open>for line in text.split('\n')\<close>, with \<^verbatim>\<open>current_section\<close> and \<^verbatim>\<open>sections\<close>\<close>
  "detect_loop U [] current_section sections = Some sections"
| "detect_loop U (raw # rest) current_section sections =
     (let line = strip U raw in
      if line = [] then detect_loop U rest current_section sections
      else (case match_header U section_headers line of
              Some label \<Rightarrow> detect_loop U rest label (od_set label [] sections)
            | None \<Rightarrow>
                (case od_append current_section line sections of
                   None \<Rightarrow> None
                 | Some sections' \<Rightarrow> detect_loop U rest current_section sections')))"

definition detect_lines :: "unicode_tables \<Rightarrow> ustring list \<Rightarrow> section_map option" where
  \<comment> \<open>the segmenter on the sequence of lines\<close>
  "detect_lines U lines = detect_loop U lines (ustr ''HEADER'') [(ustr ''HEADER'', [])]"

definition detect_sections :: "unicode_tables \<Rightarrow> ustring \<Rightarrow> section_map option" where
  "detect_sections U text = detect_lines U (split_nl text)"

text \<open>
  Two notions used to state what the segmenter returns: the label a line opens, if it
  is a header line, and the content a sequence of lines contributes.
\<close>

definition line_label :: "unicode_tables \<Rightarrow> ustring \<Rightarrow> ustring option" where
  \<comment> \<open>the label that a line of the input opens; \<open>None\<close> for a blank or a content line\<close>
  "line_label U raw =
     (let line = strip U raw
      in if line = [] then None else match_header U section_headers line)"

definition content_lines :: "unicode_tables \<Rightarrow> ustring list \<Rightarrow> ustring list" where
  \<comment> \<open>the lines as they are stored: stripped, blank lines dropped\<close>
  "content_lines U raws = filter (\<lambda>line. line \<noteq> []) (map (strip U) raws)"

section \<open>Section formatter\<close>

definition phone_class :: "unicode_tables \<Rightarrow> uchar \<Rightarrow> bool" where
  \<comment> \<open>\<^verbatim>\<open>[\d\s\-\(\)]\<close>\<close>
  "phone_class U c = (isdecimal U c \<or> isspace U c \<or> c = 45 \<or> c = 40 \<or> c = 41)"

definition phone_pattern :: "unicode_tables \<Rightarrow> matcher" where
  \<comment> \<open>\<^verbatim>\<open>r'(\+?\d[\d\s\-\(\)]{7,}\d)'\<close>\<close>
  "phone_pattern U =
     re_seq (re_opt (re_class (\<lambda>c. c = 43)))
       (re_seq (re_class (isdecimal U))
          (re_seq (re_atleast 7 (phone_class U)) (re_class (isdecimal U))))"

definition contact_line :: "unicode_tables \<Rightarrow> ustring \<Rightarrow> ustring" where
  \<comment> \<open>the entry of \<^verbatim>\<open>contact_info\<close> for one line\<close>
  "contact_line U line =
     (if re_search (phone_pattern U) line then ustr ''Phone: '' @ line
      else if 64 \<in> set line then ustr ''Email: '' @ line
      else if contains (ustr ''linkedin.com'') (str_lower U line) then ustr ''LinkedIn: '' @ line
      else if contains (ustr ''github.com'') (str_lower U line) then ustr ''GitHub: '' @ line
      else line)"

definition bullet :: ustring where
  \<comment> \<open>the marker before each line of an ordinary section, with its space: the code
      points U+00E2, U+20AC, U+00A2 and the space of the literal in the source file\<close>
  "bullet = [226, 8364, 162, 32]"

definition section_blocks :: "unicode_tables \<Rightarrow> ustring \<Rightarrow> ustring list \<Rightarrow> ustring list" where
  \<comment> \<open>what one pass of the loop over \<^verbatim>\<open>sections.items()\<close> appends to \<^verbatim>\<open>formatted_text\<close>\<close>
  "section_blocks U section content =
     (if content = [] then []
      else if section \<noteq> ustr ''HEADER'' then
        [[newline, newline] @ str_upper U section @ [newline, newline]] @
        (if contains (ustr ''contact'') (str_lower U section)
         then [join_nl (map (contact_line U) content)]
         else [join_nl (map (\<lambda>line. bullet @ line) content)])
      else
        [str_upper U (hd content) @ [newline, newline]] @
        (if length content > 1 then [join_nl (tl content) @ [newline]] else []))"

text \<open>
  The phone shape as the specification words it: a run of digits, spaces, parentheses
  and hyphens that holds eight digits or more.
\<close>

definition spec_phone_char :: "unicode_tables \<Rightarrow> uchar \<Rightarrow> bool" where
  "spec_phone_char U c = (isdecimal U c \<or> c = 32 \<or> c = 40 \<or> c = 41 \<or> c = 45)"

definition spec_phone_shaped :: "unicode_tables \<Rightarrow> ustring \<Rightarrow> bool" where
  "spec_phone_shaped U line =
     (\<exists>t \<in> set (suffixes line).
        8 \<le> length (filter (isdecimal U) (takeWhile (spec_phone_char U) t)))"

definition formatted_text :: "unicode_tables \<Rightarrow> section_map \<Rightarrow> ustring list" where
  \<comment> \<open>the list \<^verbatim>\<open>formatted_text\<close> when the loop ends\<close>
  "formatted_text U sections =
     concat (map (\<lambda>(section, content). section_blocks U section content) sections)"

definition format_sections :: "unicode_tables \<Rightarrow> section_map \<Rightarrow> ustring" where
  "format_sections U sections = strip U (concat (formatted_text U sections))"

section \<open>Evaluation on ASCII text\<close>

text \<open>
  On text in ASCII the functions consult the tables at ASCII characters only, so that
  they return the same for all tables with the entries of Python there. For matchers
  this is the relation \<open>ascii_equiv\<close>: on ASCII text two matchers return the same
  remainders, which are ASCII text again.
\<close>

definition ascii_equiv :: "matcher \<Rightarrow> matcher \<Rightarrow> bool" where
  "ascii_equiv m m' = (\<forall>s. ascii s \<longrightarrow> m s = m' s \<and> list_all ascii (m s))"


section \<open>Properties of the tables\<close>

lemma python_tables_ascii_tables: "python_tables ascii_tables"
  by (auto simp: python_tables_def ascii_tables_def list_all_iff ascii_space_def ascii_lower_def
      intro!: map_idI)

lemma python_tables_space: "python_tables U \<Longrightarrow> isspace U 32"
  by (simp add: python_tables_def ascii_space_def)

lemma ascii_Cons [simp]: "ascii (c # cs) \<longleftrightarrow> c < 128 \<and> ascii cs"
  by (simp add: ascii_def)

lemma ascii_Nil [simp]: "ascii []"
  by (simp add: ascii_def)

lemma ascii_append [simp]: "ascii (xs @ ys) \<longleftrightarrow> ascii xs \<and> ascii ys"
  by (simp add: ascii_def)

lemma ascii_set: "ascii s \<longleftrightarrow> (\<forall>c \<in> set s. c < 128)"
  by (simp add: ascii_def list_all_iff)

lemma ascii_subset: "ascii s \<Longrightarrow> set t \<subseteq> set s \<Longrightarrow> ascii t"
  by (auto simp: ascii_set)

lemma ascii_lower_less: "c < 128 \<Longrightarrow> ascii_lower c < 128"
  by (simp add: ascii_lower_def)

lemma ascii_upper_less: "c < 128 \<Longrightarrow> ascii_upper c < 128"
  unfolding ascii_upper_def by auto

lemma python_lower:
  "python_tables U \<Longrightarrow> ascii s \<Longrightarrow> str_lower U s = str_lower ascii_tables s"
  by (simp add: python_tables_def ascii_tables_def)

lemma python_upper:
  "python_tables U \<Longrightarrow> ascii s \<Longrightarrow> str_upper U s = str_upper ascii_tables s"
  by (simp add: python_tables_def ascii_tables_def)

lemma ascii_str_lower: "ascii s \<Longrightarrow> ascii (str_lower ascii_tables s)"
  by (auto simp: ascii_tables_def ascii_set ascii_lower_less)

lemma ascii_str_upper: "ascii s \<Longrightarrow> ascii (str_upper ascii_tables s)"
  by (auto simp: ascii_tables_def ascii_set ascii_upper_less)

lemma python_space:
  "python_tables U \<Longrightarrow> c < 128 \<Longrightarrow> isspace U c = isspace ascii_tables c"
  by (simp add: python_tables_def ascii_tables_def)

lemma python_decimal:
  "python_tables U \<Longrightarrow> c < 128 \<Longrightarrow> isdecimal U c = isdecimal ascii_tables c"
  by (simp add: python_tables_def ascii_tables_def)

lemma python_word:
  "python_tables U \<Longrightarrow> c < 128 \<Longrightarrow> is_word U c = is_word ascii_tables c"
  by (simp add: python_tables_def ascii_tables_def is_word_def)

lemma python_ignorecase:
  "python_tables U \<Longrightarrow> x < 128 \<Longrightarrow> c < 128
   \<Longrightarrow> ignorecase_eq U x c = ignorecase_eq ascii_tables x c"
  by (simp add: python_tables_def ascii_tables_def)

section \<open>Properties of the normalizer\<close>

lemma rstrip_Nil: "rstrip U [] = []"
  by (simp add: rstrip_def)

lemma rstrip_Cons:
  "rstrip U (c # cs) = (if (\<forall>x \<in> set (c # cs). isspace U x) then [] else c # rstrip U cs)"
  by (auto simp: rstrip_def dropWhile_append)

lemma dropWhile_all: "(\<forall>x \<in> set xs. P x) \<Longrightarrow> dropWhile P xs = []"
  by simp

lemma lstrip_rstrip: "lstrip U (rstrip U s) = rstrip U (lstrip U s)"
proof (induction s)
  case Nil
  show ?case by (simp add: lstrip_def rstrip_Nil)
next
  case (Cons c cs)
  show ?case
  proof (cases "\<forall>x \<in> set (c # cs). isspace U x")
    case True
    then show ?thesis by (simp add: lstrip_def rstrip_Cons rstrip_Nil dropWhile_all)
  next
    case False
    then show ?thesis using Cons
      by (auto simp: lstrip_def rstrip_Cons)
  qed
qed

lemma set_dropWhile_all:
  "(\<forall>x \<in> set (dropWhile P cs). P x) \<longleftrightarrow> (\<forall>x \<in> set cs. P x)"
  by (metis dropWhile_eq_Nil_conv list.set(1) empty_iff hd_dropWhile list.set_sel(1))

lemma set_spec_collapse_space:
  "P 32 \<Longrightarrow> (\<forall>x \<in> set (spec_collapse P s). P x) \<longleftrightarrow> (\<forall>x \<in> set s. P x)"
proof (induction P s rule: spec_collapse.induct)
  case (1 P)
  show ?case by simp
next
  case (2 P c cs)
  show ?case
  proof (cases "P c")
    case True
    with 2 set_dropWhile_all [of P cs] show ?thesis by simp
  next
    case False
    then show ?thesis by simp
  qed
qed

lemma spec_collapse_lstrip:
  assumes "isspace U 32"
  shows "lstrip U (spec_collapse (isspace U) s) = spec_collapse (isspace U) (lstrip U s)"
proof (cases s)
  case Nil
  then show ?thesis by (simp add: lstrip_def)
next
  case (Cons c cs)
  let ?P = "isspace U"
  have hd: "\<And>t. t \<noteq> [] \<Longrightarrow> \<not> ?P (hd t) \<Longrightarrow> dropWhile ?P (spec_collapse ?P t) = spec_collapse ?P t"
    by (case_tac t) auto
  show ?thesis
  proof (cases "?P c")
    case True
    have "dropWhile ?P (spec_collapse ?P (dropWhile ?P cs)) = spec_collapse ?P (dropWhile ?P cs)"
    proof (cases "dropWhile ?P cs = []")
      case True
      then show ?thesis by (simp del: dropWhile_eq_Nil_conv)
    next
      case False
      then show ?thesis using hd [OF False] hd_dropWhile [OF False] by simp
    qed
    with True Cons assms show ?thesis by (simp add: lstrip_def)
  next
    case False
    with Cons show ?thesis by (simp add: lstrip_def)
  qed
qed

lemma spec_collapse_rstrip:
  assumes sp: "isspace U 32"
  shows "rstrip U (spec_collapse (isspace U) s) = spec_collapse (isspace U) (rstrip U s)"
proof (induction "isspace U" s rule: spec_collapse.induct)
  case 1
  show ?case by (simp add: rstrip_Nil)
next
  case (2 c cs)
  let ?P = "isspace U"
  show ?case
  proof (cases "?P c")
    case True
    note c = True
    show ?thesis
    proof (cases "\<forall>x \<in> set cs. ?P x")
      case True
      with c sp show ?thesis
        by (simp add: rstrip_Cons rstrip_Nil set_spec_collapse_space set_dropWhile_all dropWhile_all)
    next
      case False
      have "rstrip U (spec_collapse ?P (c # cs)) = 32 # rstrip U (spec_collapse ?P (dropWhile ?P cs))"
        using c False sp by (simp add: rstrip_Cons set_spec_collapse_space set_dropWhile_all)
      also have "\<dots> = 32 # spec_collapse ?P (rstrip U (dropWhile ?P cs))"
        using 2(1) [OF c] by simp
      also have "\<dots> = 32 # spec_collapse ?P (dropWhile ?P (rstrip U cs))"
        using lstrip_rstrip [of U cs] by (simp add: lstrip_def)
      also have "\<dots> = spec_collapse ?P (rstrip U (c # cs))"
        using c False by (simp add: rstrip_Cons)
      finally show ?thesis .
    qed
  next
    case False
    with 2 show ?thesis by (auto simp: rstrip_Cons)
  qed
qed

lemma strip_spec_collapse:
  "isspace U 32 \<Longrightarrow> strip U (spec_collapse (isspace U) s) = spec_collapse (isspace U) (strip U s)"
  by (simp add: strip_def spec_collapse_lstrip spec_collapse_rstrip)

lemma re_atleast_1_match:
  assumes "P c"
  shows "\<exists>rs. re_atleast (Suc 0) P (c # cs) = dropWhile P cs # rs"
proof -
  let ?L = "length (takeWhile P (c # cs))"
  have L: "1 \<le> ?L" using assms by simp
  then have "[1..<Suc ?L] = [1..<?L] @ [?L]" by (simp only: upt_Suc_append)
  then have "rev [1..<Suc ?L] = ?L # rev [1..<?L]" by simp
  moreover have "drop ?L (c # cs) = dropWhile P cs"
    using assms dropWhile_eq_drop [of P "c # cs"] by simp
  ultimately show ?thesis by (simp add: re_atleast_def del: upt_Suc)
qed

lemma re_atleast_1_no_match: "\<not> P c \<Longrightarrow> re_atleast (Suc 0) P (c # cs) = []"
  by (simp add: re_atleast_def)

lemma re_sub_spaces: "re_sub (re_atleast (Suc 0) P) [32] s = spec_collapse P s"
proof (induction P s rule: spec_collapse.induct)
  case (1 P)
  show ?case by (subst re_sub.simps) simp
next
  case (2 P c cs)
  show ?case
  proof (cases "P c")
    case True
    then obtain rs where "re_atleast (Suc 0) P (c # cs) = dropWhile P cs # rs"
      using re_atleast_1_match by blast
    moreover have "length (dropWhile P cs) < length (c # cs)"
      using length_dropWhile_le [of P cs] by simp
    ultimately show ?thesis using True 2(1)
      by (subst re_sub.simps) simp
  next
    case False
    then show ?thesis using 2(2)
      by (subst re_sub.simps) (simp add: re_atleast_1_no_match)
  qed
qed

lemma re_class_Cons: "re_class Q (c # cs) = (if Q c then [cs] else [])"
  by (simp add: re_class_def)

lemma re_sub_class: "re_sub (re_class Q) [] s = filter (\<lambda>c. \<not> Q c) s"
proof (induction s)
  case Nil
  show ?case by (subst re_sub.simps) simp
next
  case (Cons c cs)
  then show ?case by (subst re_sub.simps) (simp add: re_class_Cons)
qed

lemma normalize_text_spec:
  assumes "isspace U 32"
  shows "normalize_text U text =
     filter (\<lambda>c. isalnum U c \<or> c = 95 \<or> isspace U c)
       (rev (dropWhile (isspace U) (rev (dropWhile (isspace U)
          (spec_collapse (isspace U) (str_lower U text))))))"
proof -
  have "normalize_text U text =
      filter (\<lambda>c. isalnum U c \<or> c = 95 \<or> isspace U c)
        (spec_collapse (isspace U) (strip U (str_lower U text)))"
    by (simp add: normalize_text_def Let_def ustr_def re_sub_spaces re_sub_class is_word_def)
  also have "spec_collapse (isspace U) (strip U (str_lower U text))
      = strip U (spec_collapse (isspace U) (str_lower U text))"
    using assms by (simp add: strip_spec_collapse)
  finally show ?thesis by (simp add: strip_def lstrip_def rstrip_def)
qed

lemma spec_collapse_cong:
  "(\<forall>c \<in> set s. P c = Q c) \<Longrightarrow> spec_collapse P s = spec_collapse Q s"
proof (induction P s rule: spec_collapse.induct)
  case (1 P)
  show ?case by simp
next
  case (2 P c cs)
  have d: "dropWhile P cs = dropWhile Q cs"
    using 2(3) by (intro dropWhile_cong) auto
  have "\<forall>c \<in> set (dropWhile P cs). P c = Q c"
    using 2(3) by (auto dest: set_dropWhileD)
  with 2 d show ?case by auto
qed

lemma set_spec_collapse: "set (spec_collapse P s) \<subseteq> insert 32 (set s)"
proof (induction P s rule: spec_collapse.induct)
  case (1 P)
  show ?case by simp
next
  case (2 P c cs)
  have "set (dropWhile P cs) \<subseteq> set cs" by (auto dest: set_dropWhileD)
  with 2 show ?case by auto
qed

lemma strip_cong: "(\<forall>c \<in> set s. isspace U c = isspace V c) \<Longrightarrow> strip U s = strip V s"
proof -
  assume a: "\<forall>c \<in> set s. isspace U c = isspace V c"
  have 1: "dropWhile (isspace U) s = dropWhile (isspace V) s"
    using a by (intro dropWhile_cong) auto
  have "\<forall>c \<in> set (rev (dropWhile (isspace V) s)). isspace U c = isspace V c"
    using a by (auto dest: set_dropWhileD)
  then have "dropWhile (isspace U) (rev (dropWhile (isspace V) s))
      = dropWhile (isspace V) (rev (dropWhile (isspace V) s))"
    by (intro dropWhile_cong) auto
  with 1 show ?thesis by (simp add: strip_def lstrip_def rstrip_def)
qed

lemma set_dropWhile_subset: "set (dropWhile P xs) \<subseteq> set xs"
  by (auto dest: set_dropWhileD)

lemma set_strip: "set (strip U s) \<subseteq> set s"
proof -
  have "set (strip U s) \<subseteq> set (rev (dropWhile (isspace U) s))"
    unfolding strip_def lstrip_def rstrip_def set_rev
    using set_dropWhile_subset [of "isspace U" "rev (dropWhile (isspace U) s)"] by simp
  also have "\<dots> \<subseteq> set s" unfolding set_rev by (rule set_dropWhile_subset)
  finally show ?thesis .
qed

lemma strip_ascii:
  "python_tables U \<Longrightarrow> ascii s \<Longrightarrow> strip U s = strip ascii_tables s"
  by (intro strip_cong) (auto simp: ascii_set python_space)

lemma ascii_strip: "ascii s \<Longrightarrow> ascii (strip U s)"
  using set_strip [of U s] by (auto simp: ascii_set)

lemma normalize_text_ascii:
  assumes U: "python_tables U" and s: "ascii s"
  shows "normalize_text U s = normalize_text ascii_tables s"
proof -
  let ?A = ascii_tables
  let ?l = "str_lower ?A s"
  have l: "str_lower U s = ?l" using U s by (rule python_lower)
  have al: "ascii ?l" using s by (rule ascii_str_lower)
  have sp: "\<forall>c \<in> set t. isspace U c = isspace ?A c" if "ascii t" for t
    using that U by (auto simp: ascii_set python_space)
  have c: "spec_collapse (isspace U) (strip U ?l) = spec_collapse (isspace ?A) (strip ?A ?l)"
    using strip_ascii [OF U al] sp [OF ascii_strip [OF al, of ?A]]
    by (simp add: spec_collapse_cong)
  have "ascii (spec_collapse (isspace ?A) (strip ?A ?l))"
    using set_spec_collapse [of "isspace ?A" "strip ?A ?l"] ascii_strip [OF al, of ?A]
    by (auto simp: ascii_set)
  then have f: "filter (\<lambda>c. \<not> \<not> (is_word U c \<or> isspace U c)) (spec_collapse (isspace ?A) (strip ?A ?l))
      = filter (\<lambda>c. \<not> \<not> (is_word ?A c \<or> isspace ?A c)) (spec_collapse (isspace ?A) (strip ?A ?l))"
    using U by (intro filter_cong) (auto simp: ascii_set python_space python_word)
  show ?thesis
    using c f by (simp add: normalize_text_def Let_def l re_sub_spaces re_sub_class ustr_def)
qed

text \<open>
  Claim C7. For every input and whatever the tables say of characters outside ASCII,
  \<^verbatim>\<open>normalize_text\<close> is the composition, in this order, of lower-casing, collapsing every
  run of whitespace to one space and trimming both ends, and keeping the characters that
  are word characters (alphanumeric or the underscore) or whitespace. The source trims
  before it collapses; the result is the same. On the example of the specification the
  result is \<^verbatim>\<open>hello world\<close>.
\<close>

theorem normalize_text_steps:
  assumes "python_tables U"
  shows "normalize_text U text =
     filter (\<lambda>c. isalnum U c \<or> c = 95 \<or> isspace U c)
       (rev (dropWhile (isspace U) (rev (dropWhile (isspace U)
          (spec_collapse (isspace U) (str_lower U text))))))
     \<and> normalize_text U (ustr ''  Hello,  World!!  '') = ustr ''hello world''"
proof -
  have a: "ascii (ustr ''  Hello,  World!!  '')" by code_simp
  have "normalize_text ascii_tables (ustr ''  Hello,  World!!  '') = ustr ''hello world''"
    by code_simp
  then have "normalize_text U (ustr ''  Hello,  World!!  '') = ustr ''hello world''"
    using normalize_text_ascii [OF assms a] by simp
  then show ?thesis
    using normalize_text_spec [OF python_tables_space [OF assms]] by blast
qed

theorem normalize_text_steps_witness:
  "python_tables ascii_tables
   \<and> normalize_text ascii_tables (ustr ''A  b,'' @ [10] @ ustr '' C_1 '') = ustr ''a b c_1''
   \<and> normalize_text ascii_tables (ustr ''  Hello,  World!!  '') = ustr ''hello world''"
proof -
  have "filter (\<lambda>c. isalnum ascii_tables c \<or> c = 95 \<or> isspace ascii_tables c)
       (rev (dropWhile (isspace ascii_tables) (rev (dropWhile (isspace ascii_tables)
          (spec_collapse (isspace ascii_tables)
             (str_lower ascii_tables (ustr ''A  b,'' @ [10] @ ustr '' C_1 '')))))))
     = ustr ''a b c_1''"
    by code_simp
  then show ?thesis
    using normalize_text_steps [OF python_tables_ascii_tables, of "ustr ''A  b,'' @ [10] @ ustr '' C_1 ''"]
      python_tables_ascii_tables
    by simp
qed


section \<open>Properties of the edit-distance engine\<close>

lemma edit_distance_Nil2: "edit_distance xs [] = length xs"
  by (cases xs) simp_all

lemma edit_distance_sym: "edit_distance xs ys = edit_distance ys xs"
proof (induction xs ys rule: edit_distance.induct)
  case (1 ys)
  show ?case by (simp add: edit_distance_Nil2)
next
  case (2 x xs)
  show ?case by simp
next
  case (3 x xs y ys)
  then show ?case by (auto simp: min.left_commute min.commute)
qed

lemma edit_distance_le_max: "edit_distance xs ys \<le> max (length xs) (length ys)"
proof (induction xs ys rule: edit_distance.induct)
  case (3 x xs y ys)
  have "edit_distance (x # xs) (y # ys) \<le> edit_distance xs ys + 1"
    by (simp add: min.coboundedI2)
  with 3(3) show ?case by simp
qed simp_all

lemma length_edit_row: "length (edit_row xs s2) = length s2 + 1"
  by (simp add: edit_row_def)

lemma nth_edit_row:
  "j \<le> length s2 \<Longrightarrow> edit_row xs s2 ! j = edit_distance xs (rev (take j s2))"
  unfolding edit_row_def by (simp add: nth_map_upt less_Suc_eq_le del: upt_Suc)

lemma edit_row_Nil: "edit_row [] s2 = [0..<length s2 + 1]"
  unfolding edit_row_def by (rule map_idI) auto

lemma inner_loop_row:
  assumes "j \<le> length s2" and "current_row = take (Suc j) (edit_row (c1 # xs) s2)"
  shows "inner_loop c1 (edit_row xs s2) (drop j s2) j current_row = Some (edit_row (c1 # xs) s2)"
  using assms
proof (induction "length s2 - j" arbitrary: j current_row)
  case 0
  then have "j = length s2" by simp
  with 0 show ?case by (simp add: length_edit_row)
next
  case (Suc k)
  then have j: "j < length s2" by simp
  let ?ys = "rev (take j s2)"
  have d: "drop j s2 = s2 ! j # drop (Suc j) s2"
    using j by (simp add: Cons_nth_drop_Suc)
  have r: "rev (take (Suc j) s2) = s2 ! j # ?ys"
    using j by (simp add: take_Suc_conv_app_nth)
  have p1: "py_index (edit_row xs s2) (Suc j) = Some (edit_distance xs (s2 ! j # ?ys))"
    using j nth_edit_row [of "Suc j" s2 xs] r by (simp add: py_index_def length_edit_row)
  have p0: "py_index (edit_row xs s2) j = Some (edit_distance xs ?ys)"
    using j nth_edit_row [of j s2 xs] by (simp add: py_index_def length_edit_row)
  have c0: "py_index current_row j = Some (edit_distance (c1 # xs) ?ys)"
    using j Suc.prems(2) nth_edit_row [of j s2 "c1 # xs"]
    by (simp add: py_index_def length_edit_row)
  let ?v = "min (edit_distance xs (s2 ! j # ?ys) + 1)
              (min (edit_distance (c1 # xs) ?ys + 1)
                 (edit_distance xs ?ys + (if c1 \<noteq> s2 ! j then 1 else 0)))"
  have v: "?v = edit_row (c1 # xs) s2 ! Suc j"
    using j nth_edit_row [of "Suc j" s2 "c1 # xs"] r by simp
  have t: "current_row @ [?v] = take (Suc (Suc j)) (edit_row (c1 # xs) s2)"
    using j Suc.prems(2) v
    by (simp only: take_Suc_conv_app_nth [of "Suc j" "edit_row (c1 # xs) s2"] length_edit_row)
  have "inner_loop c1 (edit_row xs s2) (drop j s2) j current_row
        = inner_loop c1 (edit_row xs s2) (drop (Suc j) s2) (Suc j) (current_row @ [?v])"
    by (simp add: d p1 p0 c0 Let_def)
  also have "\<dots> = Some (edit_row (c1 # xs) s2)"
    using Suc.hyps(1) [of "Suc j" "current_row @ [?v]"] Suc.hyps(2) j t by simp
  finally show ?case .
qed

lemma outer_loop_row:
  "outer_loop s1 (length xs) s2 (edit_row xs s2) = Some (edit_row (rev s1 @ xs) s2)"
proof (induction s1 arbitrary: xs)
  case Nil
  show ?case by simp
next
  case (Cons c1 rest)
  have "[length xs + 1] = take (Suc 0) (edit_row (c1 # xs) s2)"
    by (simp add: edit_row_def take_map upt_conv_Cons del: upt_Suc)
  then have "inner_loop c1 (edit_row xs s2) s2 0 [length xs + 1] = Some (edit_row (c1 # xs) s2)"
    using inner_loop_row [of 0 s2 "[length xs + 1]" c1 xs] by simp
  then show ?case using Cons [of "c1 # xs"] by simp
qed

lemma py_last_edit_row: "py_last (edit_row xs s2) = Some (edit_distance xs (rev s2))"
proof -
  have "edit_row xs s2 \<noteq> []" using length_edit_row [of xs s2] by auto
  moreover have "last (edit_row xs s2) = edit_row xs s2 ! length s2"
    using length_edit_row [of xs s2] by (simp add: last_conv_nth \<open>edit_row xs s2 \<noteq> []\<close>)
  ultimately show ?thesis by (simp add: py_last_def nth_edit_row)
qed

lemma levenshtein_distance_rev:
  "levenshtein_distance s1 s2 = Some (edit_distance (rev s1) (rev s2))"
proof -
  have ge: "levenshtein_distance a b = Some (edit_distance (rev a) (rev b))"
    if "length b \<le> length a" for a b
  proof (cases "b = []")
    case True
    then show ?thesis by (subst levenshtein_distance.simps) (simp add: edit_distance_Nil2)
  next
    case False
    have "outer_loop a 0 b [0..<length b + 1] = Some (edit_row (rev a) b)"
      using outer_loop_row [of a "[]" b] by (simp add: edit_row_Nil)
    with False that show ?thesis
      by (subst levenshtein_distance.simps) (simp add: py_last_edit_row)
  qed
  show ?thesis
  proof (cases "length s1 < length s2")
    case True
    then have "levenshtein_distance s1 s2 = levenshtein_distance s2 s1"
      by (subst levenshtein_distance.simps) simp
    also have "\<dots> = Some (edit_distance (rev s2) (rev s1))" using True ge [of s1 s2] by simp
    finally show ?thesis by (simp add: edit_distance_sym)
  next
    case False
    then show ?thesis using ge [of s2 s1] by simp
  qed
qed

lemma edits_edit_distance: "edits (edit_distance xs ys) xs ys"
proof (induction xs ys rule: edit_distance.induct)
  case (1 ys)
  show ?case by (induction ys) (auto intro: edits.intros)
next
  case (2 x xs)
  have "edits (length zs) zs []" for zs :: "'a list"
    by (induction zs) (auto intro: edits.intros)
  from this [of "x # xs"] show ?case by simp
next
  case (3 x xs y ys)
  let ?a = "edit_distance xs (y # ys) + 1"
  let ?b = "edit_distance (x # xs) ys + 1"
  let ?c = "edit_distance xs ys + (if x \<noteq> y then 1 else 0)"
  have a: "edits ?a (x # xs) (y # ys)" using edits_del [OF 3(1)] by simp
  have b: "edits ?b (x # xs) (y # ys)" using edits_ins [OF 3(2)] by simp
  have c: "edits ?c (x # xs) (y # ys)" using edits_sub [OF 3(3)] by simp
  have "min ?a (min ?b ?c) = ?a \<or> min ?a (min ?b ?c) = ?b \<or> min ?a (min ?b ?c) = ?c"
    by (auto simp: min_def)
  with a b c show ?case by (auto simp del: edit_distance.simps simp add: edit_distance.simps(3))
qed

lemma edit_distance_del: "edit_distance (x # xs) ys \<le> Suc (edit_distance xs ys)"
  by (cases ys) (simp_all add: edit_distance_Nil2 min.coboundedI1)

lemma edit_distance_ins: "edit_distance xs (y # ys) \<le> Suc (edit_distance xs ys)"
  by (cases xs) (simp_all add: min.coboundedI2 min.coboundedI1)

lemma edit_distance_sub:
  "edit_distance (x # xs) (y # ys) \<le> edit_distance xs ys + (if x \<noteq> y then 1 else 0)"
  by (simp add: min.coboundedI2)

lemma edit_distance_least: "edits n xs ys \<Longrightarrow> edit_distance xs ys \<le> n"
proof (induction rule: edits.induct)
  case edits_Nil
  show ?case by simp
next
  case (edits_del n xs ys x)
  then show ?case using edit_distance_del [of x xs ys] by linarith
next
  case (edits_ins n xs ys y)
  then show ?case using edit_distance_ins [of xs y ys] by linarith
next
  case (edits_sub n xs ys x y)
  then show ?case using edit_distance_sub [of x xs y ys] by (simp split: if_splits)
qed

lemma edits_snoc_del: "edits n xs ys \<Longrightarrow> edits (Suc n) (xs @ [a]) ys"
proof (induction rule: edits.induct)
  case edits_Nil
  show ?case using edits.edits_del [OF edits.edits_Nil, of a] by simp
next
  case (edits_sub n xs ys x y)
  show ?case using edits.edits_sub [OF edits_sub.IH, of x y] by simp
qed (auto intro: edits.intros)

lemma edits_snoc_ins: "edits n xs ys \<Longrightarrow> edits (Suc n) xs (ys @ [b])"
proof (induction rule: edits.induct)
  case edits_Nil
  show ?case using edits.edits_ins [OF edits.edits_Nil, of b] by simp
next
  case (edits_sub n xs ys x y)
  show ?case using edits.edits_sub [OF edits_sub.IH, of x y] by simp
qed (auto intro: edits.intros)

lemma edits_snoc_sub:
  "edits n xs ys \<Longrightarrow> edits (n + (if a \<noteq> b then 1 else 0)) (xs @ [a]) (ys @ [b])"
proof (induction rule: edits.induct)
  case edits_Nil
  show ?case using edits.edits_sub [OF edits.edits_Nil, of a b] by simp
next
  case (edits_del n xs ys x)
  show ?case using edits.edits_del [OF edits_del.IH, of x] by simp
next
  case (edits_ins n xs ys y)
  show ?case using edits.edits_ins [OF edits_ins.IH, of y] by simp
next
  case (edits_sub n xs ys x y)
  show ?case using edits.edits_sub [OF edits_sub.IH, of x y] by (simp add: add.commute add.left_commute)
qed

lemma edits_rev: "edits n xs ys \<Longrightarrow> edits n (rev xs) (rev ys)"
proof (induction rule: edits.induct)
  case edits_Nil
  show ?case by (simp add: edits.edits_Nil)
next
  case (edits_del n xs ys x)
  then show ?case by (simp add: edits_snoc_del)
next
  case (edits_ins n xs ys y)
  then show ?case by (simp add: edits_snoc_ins)
next
  case (edits_sub n xs ys x y)
  then show ?case using edits_snoc_sub [of n "rev xs" "rev ys" x y] by simp
qed

lemma edit_distance_rev: "edit_distance (rev xs) (rev ys) = edit_distance xs ys"
proof (rule antisym)
  show "edit_distance (rev xs) (rev ys) \<le> edit_distance xs ys"
    by (rule edit_distance_least [OF edits_rev [OF edits_edit_distance]])
  show "edit_distance xs ys \<le> edit_distance (rev xs) (rev ys)"
    using edit_distance_least [OF edits_rev [OF edits_edit_distance [of "rev xs" "rev ys"]]]
    by simp
qed

lemma levenshtein_distance_eq: "levenshtein_distance s1 s2 = Some (edit_distance s1 s2)"
  by (simp add: levenshtein_distance_rev edit_distance_rev)

text \<open>
  Claim C9. For all strings \<open>a\<close> and \<open>b\<close>, \<^verbatim>\<open>levenshtein_distance\<close> returns the same
  distance for \<open>(a, b)\<close> and for \<open>(b, a)\<close>; the distance is the edit distance of the two
  strings, and no index is read out of range.
\<close>

theorem levenshtein_distance_symmetric:
  "levenshtein_distance a b = levenshtein_distance b a
   \<and> levenshtein_distance a b = Some (edit_distance a b)"
  by (simp add: levenshtein_distance_eq edit_distance_sym [of a b])

theorem levenshtein_distance_symmetric_witness:
  "levenshtein_distance ''kitten'' ''sitting'' = Some 3
   \<and> levenshtein_distance ''sitting'' ''kitten'' = Some 3"
proof -
  have "levenshtein_distance ''kitten'' ''sitting'' = Some 3" by code_simp
  then show ?thesis
    using levenshtein_distance_symmetric [of "''kitten''" "''sitting''"] by simp
qed


section \<open>Properties of the floating-point operations\<close>

lemma round_half_even_cases:
  "round_half_even y = \<lfloor>y\<rfloor> \<or> (round_half_even y = \<lfloor>y\<rfloor> + 1 \<and> 1 / 2 \<le> y - of_int \<lfloor>y\<rfloor>)"
  by (auto simp: round_half_even_def Let_def)

lemma round_half_even_ge: "of_int j \<le> y \<Longrightarrow> j \<le> round_half_even y"
proof -
  assume "of_int j \<le> y"
  then have "j \<le> \<lfloor>y\<rfloor>" by (simp add: le_floor_iff)
  then show ?thesis using round_half_even_cases [of y] by auto
qed

lemma round_half_even_le: "y \<le> of_int j \<Longrightarrow> round_half_even y \<le> j"
proof -
  assume a: "y \<le> of_int j"
  then have f: "\<lfloor>y\<rfloor> \<le> j" by (simp add: floor_le_iff)
  show ?thesis
  proof (cases "round_half_even y = \<lfloor>y\<rfloor>")
    case True
    with f show ?thesis by simp
  next
    case False
    then have r: "round_half_even y = \<lfloor>y\<rfloor> + 1" and h: "1 / 2 \<le> y - of_int \<lfloor>y\<rfloor>"
      using round_half_even_cases [of y] by auto
    from h a have "of_int \<lfloor>y\<rfloor> < (of_int j :: rat)" by linarith
    then have "\<lfloor>y\<rfloor> < j" by simp
    with r show ?thesis by simp
  qed
qed

lemma round_half_even_err: "\<bar>of_int (round_half_even y) - y\<bar> \<le> 1 / 2"
proof -
  have 1: "of_int \<lfloor>y\<rfloor> \<le> y" and 2: "y < of_int \<lfloor>y\<rfloor> + 1" by linarith+
  show ?thesis
    using 1 2 by (auto simp: round_half_even_def Let_def abs_le_iff)
qed

lemma bitlen_pos: "0 < p \<Longrightarrow> 1 \<le> bitlen p"
  by (auto simp: bitlen_alt_def)

lemma ilog2_le:
  assumes "0 < x"
  shows "2 powi (ilog2 x) \<le> x"
proof -
  obtain p q where pq: "quotient_of x = (p, q)" by fastforce
  have q: "0 < q" using quotient_of_denom_pos [OF pq] .
  have x: "x = of_int p / of_int q" using quotient_of_div [OF pq] .
  have p: "0 < p" using assms q by (simp add: x zero_less_divide_iff)
  define k where "k = bitlen p - bitlen q"
  have "(2::int) ^ nat (bitlen p - 1) \<le> p" using bitlen_bounds [OF p] by simp
  then have "(of_int ((2::int) ^ nat (bitlen p - 1)) :: rat) \<le> of_int p"
    by (simp only: of_int_le_iff)
  then have lb: "(2::rat) powi (bitlen p - 1) \<le> of_int p"
    using bitlen_pos [OF p] by (simp add: power_int_nonneg_exp)
  have "q < (2::int) ^ nat (bitlen q)" using bitlen_bounds [OF q] by simp
  then have "(of_int q :: rat) < of_int ((2::int) ^ nat (bitlen q))"
    by (simp only: of_int_less_iff)
  then have ub: "of_int q < (2::rat) powi (bitlen q)"
    using bitlen_nonneg [of q] by (simp add: power_int_nonneg_exp)
  have eq: "k - 1 = (bitlen p - 1) - bitlen q" by (simp add: k_def)
  have "(2::rat) powi (k - 1) = 2 powi ((bitlen p - 1) - bitlen q)" by (simp only: eq)
  also have "\<dots> = 2 powi (bitlen p - 1) / 2 powi (bitlen q)"
    by (rule power_int_diff) simp
  also have "\<dots> \<le> of_int p / of_int q"
    using lb ub q p by (intro frac_le) (auto simp: less_imp_le)
  finally have low: "2 powi (k - 1) \<le> x" by (simp add: x)
  have "ilog2 x = (if 2 powi k \<le> x then k else k - 1)"
    by (simp add: ilog2_def pq k_def)
  with low show ?thesis by auto
qed

lemma ilog2_less:
  assumes "0 < x" and "x < 2 powi K"
  shows "ilog2 x < K"
proof (rule ccontr)
  assume "\<not> ilog2 x < K"
  then have "K \<le> ilog2 x" by simp
  then have "(2::rat) powi K \<le> 2 powi (ilog2 x)" by (intro power_int_increasing) auto
  with ilog2_le [OF assms(1)] assms(2) show False by linarith
qed

lemma to_double_0 [simp]: "to_double 0 = 0"
  by (simp add: to_double_def)

lemma to_double_range:
  assumes "0 \<le> x" and "x \<le> of_nat b" and "b < 2 ^ 53"
  shows "0 \<le> to_double x \<and> to_double x \<le> of_nat b"
proof (cases "x = 0")
  case True
  then show ?thesis by simp
next
  case False
  then have x: "0 < x" using assms(1) by simp
  define e where "e = max (ilog2 \<bar>x\<bar> - 52) (- 1074)"
  define j where "j = nat (- e)"
  have "(of_nat b :: rat) < 2 ^ 53" using assms(3) by (metis of_nat_less_iff of_nat_numeral of_nat_power)
  then have "x < 2 powi 53" using assms(2) by simp
  then have "ilog2 x < 53" using x by (intro ilog2_less) auto
  then have e0: "e \<le> 0" using x by (simp add: e_def)
  then have "e = - int j" by (simp add: j_def)
  then have pw: "(2::rat) powi e = 1 / 2 ^ j"
    using power_int_minus_divide [of "2::rat" "int j"] by simp
  have td: "to_double x = of_int (round_half_even (x * 2 ^ j)) / 2 ^ j"
    using False by (simp add: to_double_def e_def [symmetric] Let_def pw)
  have "(0::rat) = of_int 0" by simp
  also have "\<dots> \<le> x * 2 ^ j" using x by simp
  finally have "0 \<le> round_half_even (x * 2 ^ j)" by (intro round_half_even_ge) simp
  then have lo: "0 \<le> to_double x" by (simp add: td)
  have "x * 2 ^ j \<le> of_nat b * 2 ^ j" using assms(2) by simp
  also have "\<dots> = of_int (int b * 2 ^ j)" by simp
  finally have "round_half_even (x * 2 ^ j) \<le> int b * 2 ^ j" by (rule round_half_even_le)
  then have "(of_int (round_half_even (x * 2 ^ j)) :: rat) \<le> of_int (int b * 2 ^ j)"
    by (simp only: of_int_le_iff)
  then have "to_double x \<le> of_nat b" by (simp add: td field_simps)
  with lo show ?thesis by simp
qed

lemma to_double_error:
  assumes "\<bar>x\<bar> < 128"
  shows "\<bar>to_double x - x\<bar> \<le> 2 powi (- 47)"
proof (cases "x = 0")
  case True
  then show ?thesis by simp
next
  case False
  then have x: "0 < \<bar>x\<bar>" by simp
  define e where "e = max (ilog2 \<bar>x\<bar> - 52) (- 1074)"
  define p where "p = (2::rat) powi e"
  have "\<bar>x\<bar> < 2 powi 7" using assms by simp
  then have "ilog2 \<bar>x\<bar> < 7" using x by (intro ilog2_less) auto
  then have "e \<le> - 46" by (simp add: e_def)
  then have "p \<le> 2 powi (- 46)" unfolding p_def by (intro power_int_increasing) auto
  then have p46: "p / 2 \<le> 2 powi (- 47)" by simp
  have p0: "0 < p" by (simp add: p_def)
  have td: "to_double x = of_int (round_half_even (x / p)) * p"
    using False by (simp add: to_double_def e_def [symmetric] Let_def p_def)
  have "to_double x - x = (of_int (round_half_even (x / p)) - x / p) * p"
    using p0 by (simp add: td field_simps)
  then have "\<bar>to_double x - x\<bar> = \<bar>of_int (round_half_even (x / p)) - x / p\<bar> * p"
    using p0 by (simp add: abs_mult)
  also have "\<dots> \<le> 1 / 2 * p"
    using round_half_even_err [of "x / p"] p0 by (intro mult_right_mono) auto
  finally show ?thesis using p46 by simp
qed

text \<open>The score of two strings of distance \<open>d\<close> and maximal length \<open>m\<close>.\<close>

lemma score_bounds:
  assumes "d \<le> m" and "0 < m"
  defines "s \<equiv> py_round2 (float_mul (float_sub 1 (int_truediv d m)) 100)"
  shows "0 \<le> s \<and> s \<le> 100 \<and> \<bar>s - (1 - of_nat d / of_nat m) * 100\<bar> \<le> 1 / 100"
proof -
  define x where "x = (of_nat d / of_nat m :: rat)"
  define q where "q = int_truediv d m"
  define t where "t = float_sub 1 q"
  define p where "p = float_mul t 100"
  define k where "k = round_half_even (p * 100)"
  define eps where "eps = (2::rat) powi (- 47)"
  have x0: "0 \<le> x" and x1: "x \<le> 1" using assms by (simp_all add: x_def)
  have q: "0 \<le> q \<and> q \<le> of_nat 1"
    unfolding q_def int_truediv_def using x0 x1 by (intro to_double_range) (simp_all add: x_def)
  have qe: "\<bar>q - x\<bar> \<le> eps"
    unfolding q_def int_truediv_def eps_def x_def [symmetric]
    using x0 x1 by (intro to_double_error) simp
  have t: "0 \<le> t \<and> t \<le> of_nat 1"
    unfolding t_def float_sub_def using q by (intro to_double_range) simp_all
  have te: "\<bar>t - (1 - q)\<bar> \<le> eps"
    unfolding t_def float_sub_def eps_def using q by (intro to_double_error) simp
  have p: "0 \<le> p \<and> p \<le> of_nat 100"
    unfolding p_def float_mul_def using t by (intro to_double_range) simp_all
  have pe: "\<bar>p - t * 100\<bar> \<le> eps"
    unfolding p_def float_mul_def eps_def using t by (intro to_double_error) simp
  have "(of_int 0 :: rat) \<le> p * 100" using p by simp
  then have k0: "0 \<le> k" unfolding k_def by (rule round_half_even_ge)
  have "p * 100 \<le> of_int 10000" using p by simp
  then have k1: "k \<le> 10000" unfolding k_def by (rule round_half_even_le)
  have ke: "\<bar>of_int k - p * 100\<bar> \<le> 1 / 2"
    unfolding k_def by (rule round_half_even_err)
  have kr0: "(0::rat) \<le> of_int k / 100" using k0 by simp
  have "(of_int k :: rat) \<le> of_int 10000" using k1 by (simp only: of_int_le_iff)
  then have kr1: "(of_int k :: rat) / 100 \<le> of_nat 100" by simp
  have s: "s = to_double (of_int k / 100)"
    by (simp add: s_def py_round2_def k_def p_def t_def q_def)
  have sr: "0 \<le> s \<and> s \<le> of_nat 100"
    unfolding s using kr0 kr1 by (intro to_double_range) simp_all
  have se: "\<bar>s - of_int k / 100\<bar> \<le> eps"
    unfolding s eps_def using kr0 kr1 by (intro to_double_error) simp
  have eps: "0 \<le> eps" "eps * 202 \<le> 1 / 200" by (simp_all add: eps_def)
  have b1: "q - x \<le> eps" "x - q \<le> eps" using qe by linarith+
  have b2: "t - (1 - q) \<le> eps" "(1 - q) - t \<le> eps" using te by linarith+
  have b3: "p - t * 100 \<le> eps" "t * 100 - p \<le> eps" using pe by linarith+
  define kk where "kk = (of_int k / 100 :: rat)"
  have kk: "of_int k = kk * 100" by (simp add: kk_def)
  have b4: "kk * 100 - p * 100 \<le> 1 / 2" "p * 100 - kk * 100 \<le> 1 / 2"
    using ke unfolding kk by linarith+
  have b5: "s - kk \<le> eps" "kk - s \<le> eps" using se unfolding kk_def by linarith+
  have u1: "s - (100 - 100 * x) \<le> 1 / 200 + 202 * eps"
    using b1 b2 b3 b4 b5 by linarith
  have u2: "(100 - 100 * x) - s \<le> 1 / 200 + 202 * eps"
    using b1 b2 b3 b4 b5 by linarith
  have u: "\<bar>s - (100 - 100 * x)\<bar> \<le> 1 / 100"
    using u1 u2 eps by linarith
  have e: "(1 - x) * 100 = 100 - 100 * x" by (simp add: algebra_simps)
  have "\<bar>s - (1 - x) * 100\<bar> \<le> 1 / 100" unfolding e by (rule u)
  then show ?thesis using sr by (simp add: x_def)
qed


section \<open>Properties of the accuracy scorer\<close>

lemma ustr_Nil [simp]: "ustr [] = []"
  by (simp add: ustr_def)

lemma strip_all_space: "(\<forall>c \<in> set s. isspace U c) \<Longrightarrow> strip U s = []"
  by (simp add: strip_def lstrip_def rstrip_Nil dropWhile_all)

lemma re_sub_Nil: "re_sub m repl [] = []"
  by (subst re_sub.simps) simp

lemma normalize_text_blank:
  assumes "python_tables U" and "\<forall>c \<in> set s. isspace U c"
  shows "normalize_text U s = []"
proof -
  have "str_lower U s = s"
    using assms by (simp add: python_tables_def list_all_iff)
  then show ?thesis
    using assms(2) by (simp add: normalize_text_def strip_all_space re_sub_Nil)
qed

lemma normalize_text_Nil: "python_tables U \<Longrightarrow> normalize_text U [] = []"
  by (rule normalize_text_blank) simp_all

text \<open>
  Claim C3. When one of the two inputs normalizes to the empty string,
  \<^verbatim>\<open>calculate_accuracy\<close> returns, without an error, the score 0 together with the two
  normalized strings. This is so when one of the inputs is empty or holds whitespace
  only, whatever characters the tables count as whitespace.
\<close>

theorem calculate_accuracy_empty:
  assumes "normalize_text U e = [] \<or> normalize_text U g = []
           \<or> (python_tables U \<and> ((\<forall>c \<in> set e. isspace U c) \<or> (\<forall>c \<in> set g. isspace U c)))"
  shows "calculate_accuracy U e g = Some (Tuple3 0 (normalize_text U e) (normalize_text U g))
         \<and> (\<exists>r. calculate_accuracy U e g = Some r \<and> score r = 0)"
proof -
  from assms have "normalize_text U e = [] \<or> normalize_text U g = []"
    using normalize_text_blank by blast
  then show ?thesis
    by (auto simp: calculate_accuracy_def Let_def score_def)
qed

theorem calculate_accuracy_empty_witness:
  "calculate_accuracy ascii_tables (ustr '''') (ustr ''anything'')
     = Some (Tuple3 0 (ustr '''') (ustr ''anything''))
   \<and> calculate_accuracy ascii_tables (ustr ''anything'') (ustr '''')
     = Some (Tuple3 0 (ustr ''anything'') (ustr ''''))
   \<and> calculate_accuracy ascii_tables [32, 10, 9] (ustr ''anything'')
     = Some (Tuple3 0 (ustr '''') (ustr ''anything''))"
proof -
  have n1: "normalize_text ascii_tables (ustr '''') = ustr ''''" by code_simp
  have n2: "normalize_text ascii_tables (ustr ''anything'') = ustr ''anything''" by code_simp
  have n3: "\<forall>c \<in> set [32, 10, 9]. isspace ascii_tables c" by code_simp
  have n4: "normalize_text ascii_tables [32, 10, 9] = ustr ''''" by code_simp
  show ?thesis
    using calculate_accuracy_empty [of ascii_tables "ustr ''''" "ustr ''anything''"]
      calculate_accuracy_empty [of ascii_tables "ustr ''anything''" "ustr ''''"]
      calculate_accuracy_empty [of ascii_tables "[32, 10, 9]" "ustr ''anything''"]
      n1 n2 n3 n4 python_tables_ascii_tables
    by simp
qed

text \<open>
  Claim C6. When both normalized strings are non-empty, the score is
  \<^verbatim>\<open>round((1 - d/m) * 100, 2)\<close> computed on floats, where \<open>d\<close> is the edit distance of the
  two normalized strings and \<open>m\<close> the larger of their lengths; \<open>d\<close> is at most \<open>m\<close>, the
  score lies between 0 and 100, and it differs from the exact value of \<open>(1 - d/m) * 100\<close>
  by one hundredth at most.
\<close>

theorem calculate_accuracy_score:
  assumes "normalize_text U e \<noteq> []" and "normalize_text U g \<noteq> []"
  shows "\<exists>d m s. levenshtein_distance (normalize_text U e) (normalize_text U g) = Some d
           \<and> d = edit_distance (normalize_text U e) (normalize_text U g)
           \<and> m = max (length (normalize_text U e)) (length (normalize_text U g))
           \<and> d \<le> m \<and> 0 < m
           \<and> s = py_round2 (float_mul (float_sub 1 (int_truediv d m)) 100)
           \<and> calculate_accuracy U e g
               = Some (Tuple5 s (normalize_text U e) (normalize_text U g) d m)
           \<and> 0 \<le> s \<and> s \<le> 100
           \<and> \<bar>s - (1 - of_nat d / of_nat m) * 100\<bar> \<le> 1 / 100"
proof -
  let ?en = "normalize_text U e" and ?gn = "normalize_text U g"
  define d where "d = edit_distance ?en ?gn"
  define m where "m = max (length ?en) (length ?gn)"
  define s where "s = py_round2 (float_mul (float_sub 1 (int_truediv d m)) 100)"
  have lev: "levenshtein_distance ?en ?gn = Some d"
    by (simp add: d_def levenshtein_distance_eq)
  have dm: "d \<le> m" unfolding d_def m_def by (rule edit_distance_le_max)
  have m0: "0 < m" using assms(1) by (auto simp: m_def less_max_iff_disj)
  have calc: "calculate_accuracy U e g = Some (Tuple5 s ?en ?gn d m)"
    using assms m0 lev by (simp add: calculate_accuracy_def Let_def m_def s_def)
  show ?thesis
    using lev dm m0 calc score_bounds [OF dm m0] d_def m_def s_def by blast
qed

theorem calculate_accuracy_score_witness:
  "normalize_text ascii_tables (ustr ''abc'') \<noteq> []
   \<and> normalize_text ascii_tables (ustr ''abd'') \<noteq> []
   \<and> levenshtein_distance (ustr ''abc'') (ustr ''abd'') = Some 1
   \<and> calculate_accuracy ascii_tables (ustr ''abc'') (ustr ''abd'')
       = Some (Tuple5 (to_double (6667 / 100)) (ustr ''abc'') (ustr ''abd'') 1 3)
   \<and> py_round2 (float_mul (float_sub 1 (int_truediv 151 160)) 100) = to_double (563 / 100)
   \<and> 0 \<le> to_double (6667 / 100) \<and> to_double (6667 / 100) \<le> 100
   \<and> \<bar>to_double (6667 / 100) - (1 - 1 / 3) * 100\<bar> \<le> 1 / 100"
proof -
  have n1: "normalize_text ascii_tables (ustr ''abc'') = ustr ''abc''" by code_simp
  have n2: "normalize_text ascii_tables (ustr ''abd'') = ustr ''abd''" by code_simp
  have ne: "ustr ''abc'' \<noteq> []" "ustr ''abd'' \<noteq> []" by code_simp+
  have l: "levenshtein_distance (ustr ''abc'') (ustr ''abd'') = Some 1" by code_simp
  have m: "max (length (ustr ''abc'')) (length (ustr ''abd'')) = 3" by code_simp
  have r: "py_round2 (float_mul (float_sub 1 (int_truediv 1 3)) 100) = to_double (6667 / 100)"
    by code_simp
  have t: "py_round2 (float_mul (float_sub 1 (int_truediv 151 160)) 100) = to_double (563 / 100)"
    by code_simp
  from calculate_accuracy_score [of ascii_tables "ustr ''abc''" "ustr ''abd''"] n1 n2 ne l m r t
  show ?thesis by auto
qed

text \<open>
  Claim C4. The result of \<^verbatim>\<open>calculate_accuracy\<close> has three components (score and the two
  normalized strings) when one of the inputs normalizes to the empty string, and five
  (with the distance and the maximal length) otherwise; unpacking five components, as
  \<^verbatim>\<open>main\<close> does, fails on the result of three.
\<close>

theorem calculate_accuracy_shape:
  "(normalize_text U e = [] \<or> normalize_text U g = [] \<longrightarrow>
      (\<exists>a. calculate_accuracy U e g = Some (Tuple3 a (normalize_text U e) (normalize_text U g))
           \<and> unpack5 (Tuple3 a (normalize_text U e) (normalize_text U g)) = None))
   \<and> (normalize_text U e \<noteq> [] \<and> normalize_text U g \<noteq> [] \<longrightarrow>
      (\<exists>a d m. calculate_accuracy U e g
                  = Some (Tuple5 a (normalize_text U e) (normalize_text U g) d m)
           \<and> unpack5 (Tuple5 a (normalize_text U e) (normalize_text U g) d m)
               = Some (a, normalize_text U e, normalize_text U g, d, m)))"
  by (auto simp: calculate_accuracy_def Let_def unpack5_def levenshtein_distance_eq)

theorem calculate_accuracy_shape_witness:
  "(\<exists>a. calculate_accuracy ascii_tables (ustr '' '') (ustr ''abc'')
           = Some (Tuple3 a (ustr '''') (ustr ''abc''))
        \<and> unpack5 (Tuple3 a (ustr '''') (ustr ''abc'')) = None)
   \<and> (\<exists>a d m. calculate_accuracy ascii_tables (ustr ''abc'') (ustr ''abd'')
                 = Some (Tuple5 a (ustr ''abc'') (ustr ''abd'') d m)
        \<and> unpack5 (Tuple5 a (ustr ''abc'') (ustr ''abd'') d m)
            = Some (a, ustr ''abc'', ustr ''abd'', d, m))"
proof -
  have n0: "normalize_text ascii_tables (ustr '' '') = ustr ''''" by code_simp
  have n1: "normalize_text ascii_tables (ustr ''abc'') = ustr ''abc''" by code_simp
  have n2: "normalize_text ascii_tables (ustr ''abd'') = ustr ''abd''" by code_simp
  have ne: "ustr '''' = []" "ustr ''abc'' \<noteq> []" "ustr ''abd'' \<noteq> []" by code_simp+
  from calculate_accuracy_shape [of ascii_tables "ustr '' ''" "ustr ''abc''"]
    calculate_accuracy_shape [of ascii_tables "ustr ''abc''" "ustr ''abd''"] n0 n1 n2 ne
  show ?thesis by simp
qed


section \<open>Matching on ASCII text\<close>

lemma ascii_equivI:
  "(\<And>s. ascii s \<Longrightarrow> m s = m' s) \<Longrightarrow> (\<And>s. ascii s \<Longrightarrow> list_all ascii (m s))
   \<Longrightarrow> ascii_equiv m m'"
  by (simp add: ascii_equiv_def)

lemma ascii_equivD:
  "ascii_equiv m m' \<Longrightarrow> ascii s \<Longrightarrow> m s = m' s"
  "ascii_equiv m m' \<Longrightarrow> ascii s \<Longrightarrow> t \<in> set (m s) \<Longrightarrow> ascii t"
  by (auto simp: ascii_equiv_def list_all_iff)

lemma ascii_drop: "ascii s \<Longrightarrow> ascii (drop k s)"
  by (auto simp: ascii_set dest: in_set_dropD)

lemma ascii_equiv_class:
  assumes "\<forall>c<128. P c = Q c"
  shows "ascii_equiv (re_class P) (re_class Q)"
proof (rule ascii_equivI)
  fix s assume "ascii s"
  then show "re_class P s = re_class Q s" using assms by (cases s) (auto simp: re_class_def)
  show "list_all ascii (re_class P s)" using \<open>ascii s\<close> by (cases s) (auto simp: re_class_def)
qed

lemma ascii_equiv_atleast:
  assumes "\<forall>c<128. P c = Q c"
  shows "ascii_equiv (re_atleast n P) (re_atleast n Q)"
proof (rule ascii_equivI)
  fix s assume s: "ascii s"
  then have "takeWhile P s = takeWhile Q s"
    using assms by (intro takeWhile_cong) (auto simp: ascii_set)
  then show "re_atleast n P s = re_atleast n Q s" by (simp add: re_atleast_def)
  show "list_all ascii (re_atleast n P s)"
    using s by (auto simp: re_atleast_def list_all_iff ascii_drop)
qed

lemma ascii_equiv_star:
  "\<forall>c<128. P c = Q c \<Longrightarrow> ascii_equiv (re_star P) (re_star Q)"
  unfolding re_star_def by (rule ascii_equiv_atleast)

lemma ascii_equiv_seq:
  assumes 1: "ascii_equiv m1 m1'" and 2: "ascii_equiv m2 m2'"
  shows "ascii_equiv (re_seq m1 m2) (re_seq m1' m2')"
proof (rule ascii_equivI)
  fix s assume s: "ascii s"
  have e: "m1' s = m1 s" using 1 s by (simp add: ascii_equivD(1))
  have t: "ascii t" if "t \<in> set (m1 s)" for t using 1 s that by (rule ascii_equivD)
  have "map m2 (m1 s) = map m2' (m1 s)"
    using t ascii_equivD(1) [OF 2] by (intro map_cong) auto
  then show "re_seq m1 m2 s = re_seq m1' m2' s"
    unfolding re_seq_def e by (rule arg_cong [where f = concat])
  show "list_all ascii (re_seq m1 m2 s)"
    using t ascii_equivD(2) [OF 2] by (auto simp: re_seq_def list_all_iff)
qed

lemma ascii_equiv_opt:
  assumes "ascii_equiv m m'"
  shows "ascii_equiv (re_opt m) (re_opt m')"
proof (rule ascii_equivI)
  fix s assume s: "ascii s"
  show "re_opt m s = re_opt m' s" using ascii_equivD(1) [OF assms s] by (simp add: re_opt_def)
  show "list_all ascii (re_opt m s)"
    using s ascii_equivD(2) [OF assms s] by (auto simp: re_opt_def list_all_iff)
qed

lemma ascii_equiv_end: "ascii_equiv re_end re_end"
  by (rule ascii_equivI) (auto simp: re_end_def)

lemma re_lit_ci_ascii:
  assumes U: "python_tables U"
  shows "ascii h \<Longrightarrow> ascii s \<Longrightarrow>
    re_lit_ci U h s = re_lit_ci ascii_tables h s \<and> list_all ascii (re_lit_ci U h s)"
proof (induction h arbitrary: s)
  case Nil
  then show ?case by simp
next
  case (Cons x xs)
  show ?case
  proof (cases s)
    case Nil
    then show ?thesis by simp
  next
    case (Cons c cs)
    with Cons.prems have "x < 128" "c < 128" "ascii xs" "ascii cs" by simp_all
    then show ?thesis
      using Cons.IH [of cs] python_ignorecase [OF U, of x c] Cons by auto
  qed
qed

lemma ascii_equiv_lit_ci:
  "python_tables U \<Longrightarrow> ascii h \<Longrightarrow> ascii_equiv (re_lit_ci U h) (re_lit_ci ascii_tables h)"
  using re_lit_ci_ascii [of U h] by (intro ascii_equivI) blast+

lemma python_space_all: "python_tables U \<Longrightarrow> \<forall>c<128. isspace U c = isspace ascii_tables c"
  by (simp add: python_space)

lemma python_decimal_all:
  "python_tables U \<Longrightarrow> \<forall>c<128. isdecimal U c = isdecimal ascii_tables c"
  by (simp add: python_decimal)

lemma ascii_equiv_header_pattern:
  assumes "python_tables U" and "ascii h"
  shows "ascii_equiv (header_pattern U h) (header_pattern ascii_tables h)"
  unfolding header_pattern_def
  by (intro ascii_equiv_seq ascii_equiv_star ascii_equiv_opt ascii_equiv_class ascii_equiv_end
        ascii_equiv_lit_ci python_space_all assms) simp

lemma re_search_bol_ascii:
  "ascii_equiv m m' \<Longrightarrow> ascii s \<Longrightarrow> re_search_bol m s = re_search_bol m' s"
  by (simp add: re_search_bol_def ascii_equivD(1))

lemma match_header_ascii:
  assumes "python_tables U" and "ascii line"
  shows "list_all ascii hs \<Longrightarrow> match_header U hs line = match_header ascii_tables hs line"
proof (induction hs)
  case Nil
  show ?case by simp
next
  case (Cons h hs)
  then have h: "ascii h" and hs: "list_all ascii hs" by simp_all
  have "re_search_bol (header_pattern U h) line
      = re_search_bol (header_pattern ascii_tables h) line"
    using ascii_equiv_header_pattern [OF assms(1) h] assms(2) by (rule re_search_bol_ascii)
  then show ?case using Cons.IH [OF hs] python_upper [OF assms(1) h] by simp
qed

lemma ascii_section_headers: "list_all ascii section_headers"
  by code_simp

lemma detect_loop_ascii:
  assumes U: "python_tables U"
  shows "list_all ascii lines \<Longrightarrow>
    detect_loop U lines current_section sections
      = detect_loop ascii_tables lines current_section sections"
proof (induction lines arbitrary: current_section sections)
  case Nil
  show ?case by simp
next
  case (Cons raw rest)
  then have raw: "ascii raw" and rest: "list_all ascii rest" by simp_all
  have s: "strip U raw = strip ascii_tables raw" using U raw by (rule strip_ascii)
  have "ascii (strip ascii_tables raw)" using raw by (rule ascii_strip)
  then have m: "match_header U section_headers (strip ascii_tables raw)
      = match_header ascii_tables section_headers (strip ascii_tables raw)"
    using ascii_section_headers by (intro match_header_ascii [OF U])
  show ?case
    using Cons.IH [OF rest] by (simp add: s m Let_def split: option.splits)
qed

lemma detect_lines_ascii:
  "python_tables U \<Longrightarrow> list_all ascii lines \<Longrightarrow> detect_lines U lines = detect_lines ascii_tables lines"
  by (simp add: detect_lines_def detect_loop_ascii)

section \<open>Properties of the section segmenter\<close>

lemma example_lines:
  "detect_lines ascii_tables
     (map ustr [''John Doe'', ''Contact:'', ''john@example.com'', ''555-123-4567'',
                ''Skills'', ''Python'', ''SQL''])
     = Some [(ustr ''HEADER'', [ustr ''John Doe'']),
             (ustr ''CONTACT'', [ustr ''john@example.com'', ustr ''555-123-4567'']),
             (ustr ''SKILLS'', [ustr ''Python'', ustr ''SQL''])]"
  by code_simp

lemma example_split:
  "split_nl (ustr
     ''John Doe\<newline>Contact:\<newline>john@example.com\<newline>555-123-4567\<newline>Skills\<newline>Python\<newline>SQL'')
   = map ustr [''John Doe'', ''Contact:'', ''john@example.com'', ''555-123-4567'',
      ''Skills'', ''Python'', ''SQL'']"
  by code_simp

lemma example_blank_lines:
  "detect_lines ascii_tables
     (map ustr [''John Doe'', '''', ''Contact:'', ''john@example.com'', ''  '',
                ''555-123-4567'', ''Skills'', '''', ''Python'', ''SQL'', ''''])
     = Some [(ustr ''HEADER'', [ustr ''John Doe'']),
             (ustr ''CONTACT'', [ustr ''john@example.com'', ustr ''555-123-4567'']),
             (ustr ''SKILLS'', [ustr ''Python'', ustr ''SQL''])]"
  by code_simp

lemma example_headers:
  "match_header ascii_tables section_headers (ustr ''Contact:'') = Some (ustr ''CONTACT'')"
  "re_search_bol (header_pattern ascii_tables (ustr ''contact'')) (ustr ''Contact:'')"
  "match_header ascii_tables section_headers (ustr ''Skills'') = Some (ustr ''SKILLS'')"
  "re_search_bol (header_pattern ascii_tables (ustr ''skills'')) (ustr ''Skills'')"
  by code_simp+

lemma example_ascii:
  "list_all ascii (map ustr [''John Doe'', ''Contact:'', ''john@example.com'', ''555-123-4567'',
                ''Skills'', ''Python'', ''SQL''])"
  "list_all ascii (map ustr [''John Doe'', '''', ''Contact:'', ''john@example.com'', ''  '',
                ''555-123-4567'', ''Skills'', '''', ''Python'', ''SQL'', ''''])"
  "ascii (ustr ''Contact:'')" "ascii (ustr ''contact'')"
  "ascii (ustr ''Skills'')" "ascii (ustr ''skills'')"
  by code_simp+

text \<open>
  Claim C1. On the seven lines of the example, given as a sequence of lines or as one
  text, the segmenter returns HEADER, CONTACT and SKILLS, in this order, with their
  content. The line \<^verbatim>\<open>Contact:\<close> matches the phrase \<^verbatim>\<open>contact\<close>, its colon consumed by the
  pattern; \<^verbatim>\<open>Skills\<close> matches \<^verbatim>\<open>skills\<close>; blank lines added to the input change nothing.
  The example is in ASCII, so this holds whatever the tables say of other characters.
\<close>

theorem detect_sections_example:
  assumes "python_tables U"
  shows "detect_lines U
       (map ustr [''John Doe'', ''Contact:'', ''john@example.com'', ''555-123-4567'',
                  ''Skills'', ''Python'', ''SQL''])
     = Some [(ustr ''HEADER'', [ustr ''John Doe'']),
             (ustr ''CONTACT'', [ustr ''john@example.com'', ustr ''555-123-4567'']),
             (ustr ''SKILLS'', [ustr ''Python'', ustr ''SQL''])]
   \<and> detect_sections U (ustr
       ''John Doe\<newline>Contact:\<newline>john@example.com\<newline>555-123-4567\<newline>Skills\<newline>Python\<newline>SQL'')
     = Some [(ustr ''HEADER'', [ustr ''John Doe'']),
             (ustr ''CONTACT'', [ustr ''john@example.com'', ustr ''555-123-4567'']),
             (ustr ''SKILLS'', [ustr ''Python'', ustr ''SQL''])]
   \<and> detect_lines U
       (map ustr [''John Doe'', '''', ''Contact:'', ''john@example.com'', ''  '',
                  ''555-123-4567'', ''Skills'', '''', ''Python'', ''SQL'', ''''])
     = Some [(ustr ''HEADER'', [ustr ''John Doe'']),
             (ustr ''CONTACT'', [ustr ''john@example.com'', ustr ''555-123-4567'']),
             (ustr ''SKILLS'', [ustr ''Python'', ustr ''SQL''])]
   \<and> match_header U section_headers (ustr ''Contact:'') = Some (ustr ''CONTACT'')
   \<and> re_search_bol (header_pattern U (ustr ''contact'')) (ustr ''Contact:'')
   \<and> match_header U section_headers (ustr ''Skills'') = Some (ustr ''SKILLS'')
   \<and> re_search_bol (header_pattern U (ustr ''skills'')) (ustr ''Skills'')"
proof -
  note a = example_ascii
  have p: "re_search_bol (header_pattern U h) line
      = re_search_bol (header_pattern ascii_tables h) line" if "ascii h" "ascii line" for h line
    using ascii_equiv_header_pattern [OF assms that(1)] that(2) by (rule re_search_bol_ascii)
  show ?thesis
    unfolding detect_sections_def example_split
      detect_lines_ascii [OF assms a(1)] detect_lines_ascii [OF assms a(2)]
      match_header_ascii [OF assms a(3) ascii_section_headers]
      match_header_ascii [OF assms a(5) ascii_section_headers]
      p [OF a(4) a(3)] p [OF a(6) a(5)]
    using example_lines example_blank_lines example_headers by blast
qed

theorem detect_sections_example_witness:
  "python_tables ascii_tables
   \<and> detect_sections ascii_tables (ustr
       ''John Doe\<newline>Contact:\<newline>john@example.com\<newline>555-123-4567\<newline>Skills\<newline>Python\<newline>SQL'')
     = Some [(ustr ''HEADER'', [ustr ''John Doe'']),
             (ustr ''CONTACT'', [ustr ''john@example.com'', ustr ''555-123-4567'']),
             (ustr ''SKILLS'', [ustr ''Python'', ustr ''SQL''])]"
  using detect_sections_example [OF python_tables_ascii_tables] python_tables_ascii_tables
  by blast

lemma keys_od_set:
  "map fst (od_set k v m) = (if k \<in> set (map fst m) then map fst m else map fst m @ [k])"
  by (induction m) force+

lemma distinct_od_set: "distinct (map fst m) \<Longrightarrow> distinct (map fst (od_set k v m))"
  by (simp add: keys_od_set)

lemma map_of_od_set: "map_of (od_set k v m) = (map_of m)(k \<mapsto> v)"
  by (induction m) auto

lemma od_append_Some:
  "k \<in> set (map fst m) \<Longrightarrow> \<exists>m'. od_append k line m = Some m'"
  by (induction m) force+

lemma keys_od_append: "od_append k line m = Some m' \<Longrightarrow> map fst m' = map fst m"
  by (induction m arbitrary: m') (auto split: if_splits)

lemma map_of_od_append:
  "od_append k line m = Some m' \<Longrightarrow>
   map_of m' = (map_of m)(k \<mapsto> the (map_of m k) @ [line])"
  by (induction m arbitrary: m') (auto split: if_splits simp: fun_upd_twist)

lemma od_set_first: "\<exists>c' r'. od_set k v ((h, c) # r) = (h, c') # r'"
  by simp

lemma od_append_first:
  "od_append k line ((h, c) # r) = Some m' \<Longrightarrow> \<exists>c' r'. m' = (h, c') # r'"
  by (auto split: if_splits)

text \<open>
  The invariant of the loop: the current section is a key, the first key stays, keys are
  distinct.
\<close>

lemma detect_loop_inv:
  assumes "current_section \<in> set (map fst sections)"
    and "distinct (map fst sections)"
    and "sections = (h, c) # r"
  shows "\<exists>c' r'. detect_loop U lines current_section sections = Some ((h, c') # r')
           \<and> distinct (map fst ((h, c') # r'))"
  using assms
proof (induction lines arbitrary: current_section sections c r)
  case Nil
  then show ?case by simp
next
  case (Cons raw rest)
  show ?case
  proof (cases "strip U raw = []")
    case True
    then show ?thesis using Cons.IH [OF Cons.prems] by simp
  next
    case False
    note nonblank = False
    show ?thesis
    proof (cases "match_header U section_headers (strip U raw)")
      case (Some label)
      have 1: "label \<in> set (map fst (od_set label [] sections))"
        by (simp add: keys_od_set)
      have 2: "distinct (map fst (od_set label [] sections))"
        using Cons.prems(2) by (rule distinct_od_set)
      obtain c' r' where 3: "od_set label [] sections = (h, c') # r'"
        using od_set_first [of label "[]" h c r] Cons.prems(3) by blast
      show ?thesis using Cons.IH [OF 1 2 3] nonblank Some by simp
    next
      case None
      obtain m' where m': "od_append current_section (strip U raw) sections = Some m'"
        using od_append_Some [OF Cons.prems(1)] by blast
      have k: "map fst m' = map fst sections" using m' by (rule keys_od_append)
      obtain c' r' where 3: "m' = (h, c') # r'"
        using m' Cons.prems(3) od_append_first by blast
      have 1: "current_section \<in> set (map fst m')" using k Cons.prems(1) by simp
      have 2: "distinct (map fst m')" using k Cons.prems(2) by simp
      show ?thesis using Cons.IH [OF 1 2 3] nonblank None m' by simp
    qed
  qed
qed

lemma detect_loop_no_header:
  assumes "\<forall>l \<in> set lines. line_label U l = None"
  shows "detect_loop U lines h [(h, c)] = Some [(h, c @ content_lines U lines)]"
  using assms
proof (induction lines arbitrary: c)
  case Nil
  show ?case by (simp add: content_lines_def)
next
  case (Cons raw rest)
  then have rest: "\<forall>l \<in> set rest. line_label U l = None" by simp
  show ?case
  proof (cases "strip U raw = []")
    case True
    then show ?thesis using Cons.IH [OF rest, of c] by (simp add: content_lines_def)
  next
    case False
    then have "match_header U section_headers (strip U raw) = None"
      using Cons.prems by (simp add: line_label_def)
    then show ?thesis using False Cons.IH [OF rest, of "c @ [strip U raw]"]
      by (simp add: content_lines_def)
  qed
qed

text \<open>
  Claim C10. Whatever the tables, the segmenter returns a map, without an error, whose
  first key is HEADER (no other key is HEADER). When no line of the input is a header
  line, HEADER is the only key, and its content is the sequence of the non-blank lines
  of the input, each stripped of the whitespace around it as the loop does before
  storing it.
\<close>

theorem detect_sections_header_first:
  "(\<exists>content rest.
       detect_lines U lines = Some ((ustr ''HEADER'', content) # rest)
       \<and> ustr ''HEADER'' \<notin> set (map fst rest) \<and> distinct (map fst rest))
   \<and> ((\<forall>l \<in> set lines. line_label U l = None) \<longrightarrow>
        detect_lines U lines = Some [(ustr ''HEADER'', content_lines U lines)])
   \<and> (\<exists>content rest. detect_sections U text = Some ((ustr ''HEADER'', content) # rest)
       \<and> ustr ''HEADER'' \<notin> set (map fst rest) \<and> distinct (map fst rest))
   \<and> ((\<forall>l \<in> set (split_nl text). line_label U l = None) \<longrightarrow>
        detect_sections U text = Some [(ustr ''HEADER'', content_lines U (split_nl text))])"
proof -
  have a: "\<exists>content rest. detect_lines U ls = Some ((ustr ''HEADER'', content) # rest)
       \<and> ustr ''HEADER'' \<notin> set (map fst rest) \<and> distinct (map fst rest)" for ls
    using detect_loop_inv [of "ustr ''HEADER''" "[(ustr ''HEADER'', [])]" "ustr ''HEADER''" "[]" "[]" U ls]
    by (auto simp: detect_lines_def)
  have b: "detect_lines U ls = Some [(ustr ''HEADER'', content_lines U ls)]"
    if "\<forall>l \<in> set ls. line_label U l = None" for ls
    using detect_loop_no_header [OF that, of "ustr ''HEADER''" "[]"] by (simp add: detect_lines_def)
  show ?thesis using a [of lines] a [of "split_nl text"] b [of lines] b [of "split_nl text"]
    by (simp add: detect_sections_def)
qed

theorem detect_sections_header_first_witness:
  "detect_lines ascii_tables (map ustr [''John Doe'', '''', ''  Engineer  '', ''Skillz''])
     = Some [(ustr ''HEADER'', map ustr [''John Doe'', ''Engineer'', ''Skillz''])]
   \<and> detect_sections ascii_tables (ustr ''John Doe\<newline>\<newline>  Engineer  \<newline>Skillz'')
     = Some [(ustr ''HEADER'', map ustr [''John Doe'', ''Engineer'', ''Skillz''])]"
proof -
  have s: "split_nl (ustr ''John Doe\<newline>\<newline>  Engineer  \<newline>Skillz'')
           = map ustr [''John Doe'', '''', ''  Engineer  '', ''Skillz'']" by code_simp
  have l: "\<forall>l \<in> set (map ustr [''John Doe'', '''', ''  Engineer  '', ''Skillz'']).
             line_label ascii_tables l = None"
    by code_simp
  have c: "content_lines ascii_tables (map ustr [''John Doe'', '''', ''  Engineer  '', ''Skillz''])
           = map ustr [''John Doe'', ''Engineer'', ''Skillz'']" by code_simp
  from detect_sections_header_first
         [of ascii_tables "map ustr [''John Doe'', '''', ''  Engineer  '', ''Skillz'']"
             "ustr ''John Doe\<newline>\<newline>  Engineer  \<newline>Skillz''"] l
  show ?thesis unfolding s c by blast
qed


lemma detect_loop_other:
  assumes "current_section \<in> set (map fst sections)"
    and "current_section \<noteq> label"
    and "\<forall>l \<in> set lines. line_label U l \<noteq> Some label"
  shows "\<exists>secs. detect_loop U lines current_section sections = Some secs
           \<and> map_of secs label = map_of sections label"
  using assms
proof (induction lines arbitrary: current_section sections)
  case Nil
  show ?case by simp
next
  case (Cons raw rest)
  from Cons.prems(3) have rest: "\<forall>l \<in> set rest. line_label U l \<noteq> Some label"
    and raw: "line_label U raw \<noteq> Some label" by simp_all
  show ?case
  proof (cases "strip U raw = []")
    case True
    then show ?thesis using Cons.IH [OF Cons.prems(1,2) rest] by simp
  next
    case False
    note nonblank = False
    show ?thesis
    proof (cases "match_header U section_headers (strip U raw)")
      case (Some other)
      then have ne: "other \<noteq> label" using raw nonblank by (simp add: line_label_def)
      have 1: "other \<in> set (map fst (od_set other [] sections))"
        by (simp add: keys_od_set)
      have "map_of (od_set other [] sections) label = map_of sections label"
        using ne by (simp add: map_of_od_set)
      then show ?thesis using Cons.IH [OF 1 ne rest] nonblank Some by simp
    next
      case None
      obtain m' where m': "od_append current_section (strip U raw) sections = Some m'"
        using od_append_Some [OF Cons.prems(1)] by blast
      have 1: "current_section \<in> set (map fst m')"
        using keys_od_append [OF m'] Cons.prems(1) by simp
      have "map_of m' label = map_of sections label"
        using map_of_od_append [OF m'] Cons.prems(2) by simp
      then show ?thesis using Cons.IH [OF 1 Cons.prems(2) rest] nonblank None m' by simp
    qed
  qed
qed

lemma detect_loop_current:
  assumes "map_of sections label = Some c"
    and "\<forall>l \<in> set lines. line_label U l \<noteq> Some label"
  shows "\<exists>secs. detect_loop U lines label sections = Some secs
           \<and> map_of secs label
               = Some (c @ content_lines U (takeWhile (\<lambda>l. line_label U l = None) lines))"
  using assms
proof (induction lines arbitrary: sections c)
  case Nil
  then show ?case by (simp add: content_lines_def)
next
  case (Cons raw rest)
  from Cons.prems(2) have rest: "\<forall>l \<in> set rest. line_label U l \<noteq> Some label"
    and raw: "line_label U raw \<noteq> Some label" by simp_all
  have key: "label \<in> set (map fst sections)"
    using Cons.prems(1) by (auto dest: map_of_SomeD intro: rev_image_eqI)
  show ?case
  proof (cases "strip U raw = []")
    case True
    then have "line_label U raw = None" by (simp add: line_label_def)
    then show ?thesis using True Cons.IH [OF Cons.prems(1) rest]
      by (simp add: content_lines_def)
  next
    case False
    note nonblank = False
    show ?thesis
    proof (cases "match_header U section_headers (strip U raw)")
      case (Some other)
      then have ll: "line_label U raw = Some other" using nonblank by (simp add: line_label_def)
      then have ne: "other \<noteq> label" using raw by simp
      have 1: "other \<in> set (map fst (od_set other [] sections))"
        by (simp add: keys_od_set)
      have 2: "map_of (od_set other [] sections) label = Some c"
        using ne Cons.prems(1) by (simp add: map_of_od_set)
      from detect_loop_other [OF 1 ne rest] 2
      show ?thesis using nonblank Some ll by (simp add: content_lines_def)
    next
      case None
      then have ll: "line_label U raw = None" using nonblank by (simp add: line_label_def)
      obtain m' where m': "od_append label (strip U raw) sections = Some m'"
        using od_append_Some [OF key] by blast
      have 1: "map_of m' label = Some (c @ [strip U raw])"
        using map_of_od_append [OF m'] Cons.prems(1) by simp
      from Cons.IH [OF 1 rest]
      show ?thesis using nonblank None ll m' by (simp add: content_lines_def)
    qed
  qed
qed

lemma detect_loop_reopen:
  assumes "current_section \<in> set (map fst sections)"
    and "line_label U raw = Some label"
    and "\<forall>l \<in> set post. line_label U l \<noteq> Some label"
  shows "\<exists>secs. detect_loop U (pre @ raw # post) current_section sections = Some secs
           \<and> map_of secs label
               = Some (content_lines U (takeWhile (\<lambda>l. line_label U l = None) post))"
  using assms(1)
proof (induction pre arbitrary: current_section sections)
  case Nil
  from assms(2) have nonblank: "strip U raw \<noteq> []"
    and m: "match_header U section_headers (strip U raw) = Some label"
    by (auto simp: line_label_def Let_def split: if_splits)
  have "map_of (od_set label [] sections) label = Some []" by (simp add: map_of_od_set)
  from detect_loop_current [OF this assms(3)] show ?case using nonblank m by simp
next
  case (Cons p ps)
  show ?case
  proof (cases "strip U p = []")
    case True
    then show ?thesis using Cons.IH [OF Cons.prems] by simp
  next
    case False
    note nonblank = False
    show ?thesis
    proof (cases "match_header U section_headers (strip U p)")
      case (Some other)
      have 1: "other \<in> set (map fst (od_set other [] sections))"
        by (simp add: keys_od_set)
      show ?thesis using Cons.IH [OF 1] nonblank Some by simp
    next
      case None
      obtain m' where m': "od_append current_section (strip U p) sections = Some m'"
        using od_append_Some [OF Cons.prems] by blast
      have 1: "current_section \<in> set (map fst m')"
        using keys_od_append [OF m'] Cons.prems by simp
      show ?thesis using Cons.IH [OF 1] nonblank None m' by simp
    qed
  qed
qed

text \<open>
  Claim C5. Every match of a header opens an empty content list for its label, also when
  the label was seen before: right after a header line the content of its label is
  empty, whatever preceded it, and at the end the content of a label holds only the
  lines that follow the last header line of that label (up to the next header line).
\<close>

theorem detect_sections_reopen:
  assumes "line_label U raw = Some label"
    and "\<forall>l \<in> set post. line_label U l \<noteq> Some label"
  shows "(\<exists>secs. detect_lines U (pre @ [raw]) = Some secs \<and> map_of secs label = Some [])
         \<and> (\<exists>secs. detect_lines U (pre @ raw # post) = Some secs
               \<and> map_of secs label
                   = Some (content_lines U (takeWhile (\<lambda>l. line_label U l = None) post)))"
proof -
  have k: "ustr ''HEADER'' \<in> set (map fst [(ustr ''HEADER'', [])])" by simp
  have e: "\<forall>l \<in> set []. line_label U l \<noteq> Some label" by simp
  from detect_loop_reopen [OF k assms(1) e, of pre] detect_loop_reopen [OF k assms, of pre]
  show ?thesis by (simp add: detect_lines_def content_lines_def)
qed

theorem detect_sections_reopen_witness:
  "line_label ascii_tables (ustr ''Skills:'') = Some (ustr ''SKILLS'')
   \<and> (\<exists>secs. detect_lines ascii_tables (map ustr [''Skills'', ''Python'', ''Skills:'']) = Some secs
         \<and> map_of secs (ustr ''SKILLS'') = Some [])
   \<and> (\<exists>secs. detect_lines ascii_tables
                  (map ustr [''Skills'', ''Python'', ''Skills:'', ''SQL'', ''Education'', ''MIT''])
                = Some secs
         \<and> map_of secs (ustr ''SKILLS'') = Some [ustr ''SQL''])
   \<and> detect_lines ascii_tables
         (map ustr [''Skills'', ''Python'', ''Skills:'', ''SQL'', ''Education'', ''MIT''])
       = Some [(ustr ''HEADER'', []), (ustr ''SKILLS'', [ustr ''SQL'']),
               (ustr ''EDUCATION'', [ustr ''MIT''])]"
proof -
  have v: "detect_lines ascii_tables
         (map ustr [''Skills'', ''Python'', ''Skills:'', ''SQL'', ''Education'', ''MIT''])
       = Some [(ustr ''HEADER'', []), (ustr ''SKILLS'', [ustr ''SQL'']),
               (ustr ''EDUCATION'', [ustr ''MIT''])]"
    by code_simp
  have l: "line_label ascii_tables (ustr ''Skills:'') = Some (ustr ''SKILLS'')" by code_simp
  have p: "\<forall>l \<in> set (map ustr [''SQL'', ''Education'', ''MIT'']).
             line_label ascii_tables l \<noteq> Some (ustr ''SKILLS'')"
    by code_simp
  have c: "content_lines ascii_tables
             (takeWhile (\<lambda>l. line_label ascii_tables l = None)
                (map ustr [''SQL'', ''Education'', ''MIT'']))
           = [ustr ''SQL'']" by code_simp
  from detect_sections_reopen [OF l p, of "map ustr [''Skills'', ''Python'']"] l c v
  show ?thesis by simp
qed


section \<open>Properties of the section formatter\<close>

lemma contains_iff: "contains needle hay \<longleftrightarrow> (\<exists>p s. hay = p @ needle @ s)"
proof (induction hay)
  case Nil
  show ?case by auto
next
  case (Cons c cs)
  show ?case
  proof
    assume "contains needle (c # cs)"
    then consider "prefix needle (c # cs)" | "contains needle cs" by auto
    then show "\<exists>p s. c # cs = p @ needle @ s"
    proof cases
      case 1
      then obtain s where "c # cs = needle @ s" by (auto simp: prefix_def)
      then have "c # cs = [] @ needle @ s" by simp
      then show ?thesis by blast
    next
      case 2
      then obtain p s where "cs = p @ needle @ s" using Cons by blast
      then have "c # cs = (c # p) @ needle @ s" by simp
      then show ?thesis by blast
    qed
  next
    assume "\<exists>p s. c # cs = p @ needle @ s"
    then obtain p s where ps: "c # cs = p @ needle @ s" by blast
    show "contains needle (c # cs)"
    proof (cases p)
      case Nil
      with ps have "prefix needle (c # cs)" by (simp add: prefix_def)
      then show ?thesis by simp
    next
      case (Cons a p')
      with ps have "cs = p' @ needle @ s" by simp
      then have "contains needle cs" using Cons.IH by blast
      then show ?thesis by simp
    qed
  qed
qed

lemma in_re_class: "r \<in> set (re_class P s) \<longleftrightarrow> (\<exists>c. s = c # r \<and> P c)"
  by (cases s) (auto simp: re_class_def)

lemma in_re_seq: "r \<in> set (re_seq m1 m2 s) \<longleftrightarrow> (\<exists>t. t \<in> set (m1 s) \<and> r \<in> set (m2 t))"
  by (auto simp: re_seq_def)

lemma in_re_opt: "r \<in> set (re_opt m s) \<longleftrightarrow> r \<in> set (m s) \<or> r = s"
  by (auto simp: re_opt_def)

lemma in_re_atleast:
  "r \<in> set (re_atleast n P s) \<longleftrightarrow> (\<exists>w. s = w @ r \<and> n \<le> length w \<and> (\<forall>c \<in> set w. P c))"
proof
  assume "r \<in> set (re_atleast n P s)"
  then obtain k where k: "n \<le> k" "k \<le> length (takeWhile P s)" and r: "r = drop k s"
    by (auto simp: re_atleast_def)
  have len: "k \<le> length s" using k(2) length_takeWhile_le [of P s] by linarith
  have "take k s = take k (takeWhile P s @ dropWhile P s)" by simp
  also have "\<dots> = take k (takeWhile P s)" using k(2) by (simp del: takeWhile_dropWhile_id)
  finally have "set (take k s) \<subseteq> set (takeWhile P s)" by (metis set_take_subset)
  then have "\<forall>c \<in> set (take k s). P c" by (auto dest: set_takeWhileD)
  moreover have "s = take k s @ r" using r by simp
  moreover have "n \<le> length (take k s)" using k(1) len by simp
  ultimately show "\<exists>w. s = w @ r \<and> n \<le> length w \<and> (\<forall>c \<in> set w. P c)" by blast
next
  assume "\<exists>w. s = w @ r \<and> n \<le> length w \<and> (\<forall>c \<in> set w. P c)"
  then obtain w where w: "s = w @ r" "n \<le> length w" "\<forall>c \<in> set w. P c" by blast
  have "takeWhile P s = w @ takeWhile P r" using w(1,3) by (simp add: takeWhile_append2)
  then have "length w \<le> length (takeWhile P s)" by simp
  then have "length w \<in> set (rev [n..<Suc (length (takeWhile P s))])" using w(2) by auto
  then have "drop (length w) s \<in> (\<lambda>k. drop k s) ` set (rev [n..<Suc (length (takeWhile P s))])"
    by (rule imageI)
  moreover have "drop (length w) s = r" using w(1) by simp
  ultimately show "r \<in> set (re_atleast n P s)"
    unfolding re_atleast_def set_map by simp
qed

lemma re_search_iff: "re_search m s \<longleftrightarrow> (\<exists>pre t. s = pre @ t \<and> m t \<noteq> [])"
  unfolding re_search_def set_rev in_set_suffixes Bex_def suffix_def mem_Collect_eq by blast

lemma nonempty_iff: "xs \<noteq> [] \<longleftrightarrow> (\<exists>r. r \<in> set xs)"
  by (cases xs) auto

lemma phone_pattern_iff:
  "phone_pattern U t \<noteq> [] \<longleftrightarrow>
     (\<exists>plus d1 mid d2 r. t = plus @ d1 # mid @ d2 # r \<and> (plus = [] \<or> plus = [43])
        \<and> isdecimal U d1 \<and> 7 \<le> length mid \<and> (\<forall>c \<in> set mid. phone_class U c) \<and> isdecimal U d2)"
proof
  assume "phone_pattern U t \<noteq> []"
  then obtain r where "r \<in> set (phone_pattern U t)" by (auto simp: nonempty_iff)
  then obtain t1 d1 mid d2 where
    t1: "t1 \<in> set (re_opt (re_class (\<lambda>c. c = 43)) t)"
    and rest: "t1 = d1 # mid @ d2 # r" "isdecimal U d1" "7 \<le> length mid"
      "\<forall>c \<in> set mid. phone_class U c" "isdecimal U d2"
    unfolding phone_pattern_def in_re_seq in_re_class in_re_atleast by auto
  from t1 have "t = [43] @ t1 \<or> t = [] @ t1" by (auto simp: in_re_opt in_re_class)
  with rest show "\<exists>plus d1 mid d2 r. t = plus @ d1 # mid @ d2 # r \<and> (plus = [] \<or> plus = [43])
        \<and> isdecimal U d1 \<and> 7 \<le> length mid \<and> (\<forall>c \<in> set mid. phone_class U c) \<and> isdecimal U d2"
    by blast
next
  assume "\<exists>plus d1 mid d2 r. t = plus @ d1 # mid @ d2 # r \<and> (plus = [] \<or> plus = [43])
        \<and> isdecimal U d1 \<and> 7 \<le> length mid \<and> (\<forall>c \<in> set mid. phone_class U c) \<and> isdecimal U d2"
  then obtain plus d1 mid d2 r where t: "t = plus @ d1 # mid @ d2 # r"
    and plus: "plus = [] \<or> plus = [43]"
    and rest: "isdecimal U d1" "7 \<le> length mid" "\<forall>c \<in> set mid. phone_class U c" "isdecimal U d2"
    by blast
  have 1: "d1 # mid @ d2 # r \<in> set (re_opt (re_class (\<lambda>c. c = 43)) t)"
    using t plus by (auto simp: in_re_opt in_re_class)
  have 2: "mid @ d2 # r \<in> set (re_class (isdecimal U) (d1 # mid @ d2 # r))"
    using rest(1) by (simp add: in_re_class)
  have 3: "d2 # r \<in> set (re_atleast 7 (phone_class U) (mid @ d2 # r))"
    using rest(2,3) by (auto simp: in_re_atleast)
  have 4: "r \<in> set (re_class (isdecimal U) (d2 # r))"
    using rest(4) by (simp add: in_re_class)
  have "r \<in> set (phone_pattern U t)"
    unfolding phone_pattern_def in_re_seq using 1 2 3 4 by blast
  then show "phone_pattern U t \<noteq> []" by auto
qed

lemma phone_search_iff:
  "re_search (phone_pattern U) line \<longleftrightarrow>
     (\<exists>pre d1 mid d2 post. line = pre @ d1 # mid @ d2 # post
        \<and> isdecimal U d1 \<and> isdecimal U d2 \<and> 7 \<le> length mid \<and> (\<forall>c \<in> set mid. phone_class U c))"
proof
  assume "re_search (phone_pattern U) line"
  then obtain pre plus d1 mid d2 r where
    "line = pre @ plus @ d1 # mid @ d2 # r" "isdecimal U d1" "7 \<le> length mid"
    "\<forall>c \<in> set mid. phone_class U c" "isdecimal U d2"
    unfolding re_search_iff phone_pattern_iff by blast
  then have "line = (pre @ plus) @ d1 # mid @ d2 # r \<and> isdecimal U d1 \<and> isdecimal U d2
      \<and> 7 \<le> length mid \<and> (\<forall>c \<in> set mid. phone_class U c)" by simp
  then show "\<exists>pre d1 mid d2 post. line = pre @ d1 # mid @ d2 # post
        \<and> isdecimal U d1 \<and> isdecimal U d2 \<and> 7 \<le> length mid \<and> (\<forall>c \<in> set mid. phone_class U c)"
    by blast
next
  assume "\<exists>pre d1 mid d2 post. line = pre @ d1 # mid @ d2 # post
        \<and> isdecimal U d1 \<and> isdecimal U d2 \<and> 7 \<le> length mid \<and> (\<forall>c \<in> set mid. phone_class U c)"
  then obtain pre d1 mid d2 post where l: "line = pre @ d1 # mid @ d2 # post"
    and rest: "isdecimal U d1" "isdecimal U d2" "7 \<le> length mid" "\<forall>c \<in> set mid. phone_class U c"
    by blast
  have "phone_pattern U (d1 # mid @ d2 # post) \<noteq> []"
    unfolding phone_pattern_iff using rest by (intro exI [where x = "[]"]) auto
  with l show "re_search (phone_pattern U) line" unfolding re_search_iff by blast
qed

lemma ascii_suffix: "ascii s \<Longrightarrow> suffix t s \<Longrightarrow> ascii t"
  by (auto simp: suffix_def)

lemma re_search_ascii:
  assumes "ascii_equiv m m'" and "ascii s"
  shows "re_search m s = re_search m' s"
proof -
  have "m t = m' t" if "t \<in> set (rev (suffixes s))" for t
    using that assms ascii_suffix [of s t] by (auto simp: in_set_suffixes ascii_equivD(1))
  then show ?thesis by (simp add: re_search_def)
qed

lemma python_phone_class:
  "python_tables U \<Longrightarrow> \<forall>c<128. phone_class U c = phone_class ascii_tables c"
  by (simp add: phone_class_def python_space python_decimal)

lemma ascii_equiv_phone_pattern:
  assumes "python_tables U"
  shows "ascii_equiv (phone_pattern U) (phone_pattern ascii_tables)"
  unfolding phone_pattern_def
  by (intro ascii_equiv_seq ascii_equiv_opt ascii_equiv_class ascii_equiv_atleast
        python_decimal_all python_phone_class assms) simp

lemma contact_line_ascii:
  assumes "python_tables U" and "ascii line"
  shows "contact_line U line = contact_line ascii_tables line"
  using re_search_ascii [OF ascii_equiv_phone_pattern [OF assms(1)] assms(2)]
    python_lower [OF assms]
  by (simp add: contact_line_def)

lemma spec_phone_shaped_ascii:
  assumes U: "python_tables U" and l: "ascii line"
  shows "spec_phone_shaped U line = spec_phone_shaped ascii_tables line"
proof -
  have c: "\<forall>c<128. spec_phone_char U c = spec_phone_char ascii_tables c"
    using U by (simp add: spec_phone_char_def python_decimal)
  have "filter (isdecimal U) (takeWhile (spec_phone_char U) t)
      = filter (isdecimal ascii_tables) (takeWhile (spec_phone_char ascii_tables) t)"
    if "t \<in> set (suffixes line)" for t
  proof -
    have t: "ascii t" using that l ascii_suffix by (auto simp: in_set_suffixes)
    then have 1: "takeWhile (spec_phone_char U) t = takeWhile (spec_phone_char ascii_tables) t"
      using c by (intro takeWhile_cong) (auto simp: ascii_set)
    have "set (takeWhile (spec_phone_char ascii_tables) t) \<subseteq> set t"
      by (auto dest: set_takeWhileD)
    then have "\<forall>x \<in> set (takeWhile (spec_phone_char ascii_tables) t). x < 128"
      using t by (auto simp: ascii_set)
    then have "filter (isdecimal U) (takeWhile (spec_phone_char ascii_tables) t)
        = filter (isdecimal ascii_tables) (takeWhile (spec_phone_char ascii_tables) t)"
      using U by (intro filter_cong) (auto simp: python_decimal)
    with 1 show ?thesis by simp
  qed
  then show ?thesis by (simp add: spec_phone_shaped_def)
qed

lemma contact_not_HEADER:
  assumes "python_tables U" and "contains (ustr ''contact'') (str_lower U section)"
  shows "section \<noteq> ustr ''HEADER''"
proof
  assume s: "section = ustr ''HEADER''"
  have a: "ascii (ustr ''HEADER'')" by code_simp
  have "\<not> contains (ustr ''contact'') (str_lower ascii_tables (ustr ''HEADER''))" by code_simp
  then show False using assms(2) python_lower [OF assms(1) a] s by simp
qed

text \<open>
  Claim C8, amended. In a section whose label contains \<^verbatim>\<open>contact\<close> (whatever the case), each
  content line is classified in this order of priority: a line that holds a digit, then
  at least seven characters that are digits, whitespace, hyphens or parentheses, then a
  digit (nine characters or more in all) gets the prefix \<^verbatim>\<open>Phone: \<close>; otherwise a line
  with an \<^verbatim>\<open>@\<close> gets \<^verbatim>\<open>Email: \<close>; otherwise a line with \<^verbatim>\<open>linkedin.com\<close> gets \<^verbatim>\<open>LinkedIn: \<close>;
  otherwise a line with \<^verbatim>\<open>github.com\<close> gets \<^verbatim>\<open>GitHub: \<close>; any other line is left as it is.
  Digits and whitespace are what the tables say, for every character of Unicode.
\<close>

theorem contact_line_priority:
  "contact_line U line =
     (if (\<exists>pre d1 mid d2 post. line = pre @ d1 # mid @ d2 # post
            \<and> isdecimal U d1 \<and> isdecimal U d2 \<and> 7 \<le> length mid
            \<and> (\<forall>c \<in> set mid. isdecimal U c \<or> isspace U c \<or> c = 45 \<or> c = 40 \<or> c = 41))
      then ustr ''Phone: '' @ line
      else if 64 \<in> set line then ustr ''Email: '' @ line
      else if (\<exists>p s. str_lower U line = p @ ustr ''linkedin.com'' @ s)
        then ustr ''LinkedIn: '' @ line
      else if (\<exists>p s. str_lower U line = p @ ustr ''github.com'' @ s)
        then ustr ''GitHub: '' @ line
      else line)
   \<and> (python_tables U \<and> (\<exists>p s. str_lower U section = p @ ustr ''contact'' @ s)
        \<and> content \<noteq> [] \<longrightarrow>
        section_blocks U section content =
          [[newline, newline] @ str_upper U section @ [newline, newline],
           join_nl (map (contact_line U) content)])"
proof -
  have 1: "contact_line U line =
     (if (\<exists>pre d1 mid d2 post. line = pre @ d1 # mid @ d2 # post
            \<and> isdecimal U d1 \<and> isdecimal U d2 \<and> 7 \<le> length mid
            \<and> (\<forall>c \<in> set mid. isdecimal U c \<or> isspace U c \<or> c = 45 \<or> c = 40 \<or> c = 41))
      then ustr ''Phone: '' @ line
      else if 64 \<in> set line then ustr ''Email: '' @ line
      else if (\<exists>p s. str_lower U line = p @ ustr ''linkedin.com'' @ s)
        then ustr ''LinkedIn: '' @ line
      else if (\<exists>p s. str_lower U line = p @ ustr ''github.com'' @ s)
        then ustr ''GitHub: '' @ line
      else line)"
    unfolding contact_line_def phone_search_iff contains_iff phone_class_def ..
  have 2: "section_blocks U section content =
          [[newline, newline] @ str_upper U section @ [newline, newline],
           join_nl (map (contact_line U) content)]"
    if "python_tables U" and "\<exists>p s. str_lower U section = p @ ustr ''contact'' @ s"
      and "content \<noteq> []"
  proof -
    from that(2) have c: "contains (ustr ''contact'') (str_lower U section)"
      unfolding contains_iff .
    then have "section \<noteq> ustr ''HEADER''" using that(1) by (intro contact_not_HEADER)
    with c that(3) show ?thesis by (simp add: section_blocks_def)
  qed
  from 1 2 show ?thesis by blast
qed

theorem contact_line_priority_witness:
  "python_tables ascii_tables
   \<and> contact_line ascii_tables (ustr ''555-123-4567'') = ustr ''Phone: 555-123-4567''
   \<and> section_blocks ascii_tables (ustr ''CONTACT'')
        [ustr ''john@example.com'', ustr ''555-123-4567'']
      = [ustr ''\<newline>\<newline>CONTACT\<newline>\<newline>'',
         ustr ''Email: john@example.com\<newline>Phone: 555-123-4567'']"
proof -
  have d: "isdecimal ascii_tables 53" "isdecimal ascii_tables 55" by code_simp+
  have m: "\<forall>c \<in> set (ustr ''55-123-456'').
             isdecimal ascii_tables c \<or> isspace ascii_tables c \<or> c = 45 \<or> c = 40 \<or> c = 41"
    by code_simp
  have e: "ustr ''555-123-4567'' = [] @ 53 # ustr ''55-123-456'' @ 55 # []" by code_simp
  have n: "7 \<le> length (ustr ''55-123-456'')" by code_simp
  have ph: "\<exists>pre d1 mid d2 post. ustr ''555-123-4567'' = pre @ d1 # mid @ d2 # post
            \<and> isdecimal ascii_tables d1 \<and> isdecimal ascii_tables d2 \<and> 7 \<le> length mid
            \<and> (\<forall>c \<in> set mid. isdecimal ascii_tables c \<or> isspace ascii_tables c
                                \<or> c = 45 \<or> c = 40 \<or> c = 41)"
    using d m e n by blast
  have lw: "str_lower ascii_tables (ustr ''CONTACT'') = [] @ ustr ''contact'' @ []" by code_simp
  then have c: "\<exists>p s. str_lower ascii_tables (ustr ''CONTACT'') = p @ ustr ''contact'' @ s"
    by blast
  have j: "[[newline, newline] @ str_upper ascii_tables (ustr ''CONTACT'') @ [newline, newline],
            join_nl (map (contact_line ascii_tables)
                      [ustr ''john@example.com'', ustr ''555-123-4567''])]
      = [ustr ''\<newline>\<newline>CONTACT\<newline>\<newline>'',
         ustr ''Email: john@example.com\<newline>Phone: 555-123-4567'']"
    by code_simp
  from contact_line_priority [of ascii_tables "ustr ''555-123-4567''" "ustr ''CONTACT''"
        "[ustr ''john@example.com'', ustr ''555-123-4567'']"]
    ph c python_tables_ascii_tables
  have "contact_line ascii_tables (ustr ''555-123-4567'') = ustr ''Phone: '' @ ustr ''555-123-4567''"
    and "section_blocks ascii_tables (ustr ''CONTACT'')
           [ustr ''john@example.com'', ustr ''555-123-4567'']
         = [[newline, newline] @ str_upper ascii_tables (ustr ''CONTACT'') @ [newline, newline],
            join_nl (map (contact_line ascii_tables)
                      [ustr ''john@example.com'', ustr ''555-123-4567''])]"
    by simp_all
  moreover have "ustr ''Phone: '' @ ustr ''555-123-4567'' = ustr ''Phone: 555-123-4567''"
    by code_simp
  ultimately show ?thesis using j python_tables_ascii_tables by simp
qed

text \<open>
  The claim as the specification words it asks for a run of eight digits or more. A line
  of exactly eight digits is such a run, and gets no prefix: the pattern needs nine
  characters. This is so for all tables with the entries of Python for ASCII.
\<close>

theorem contact_line_counterexample:
  "spec_phone_shaped ascii_tables (ustr ''12345678'')
   \<and> contact_line ascii_tables (ustr ''12345678'') = ustr ''12345678''
   \<and> contact_line ascii_tables (ustr ''12345678'') \<noteq> ustr ''Phone: 12345678''
   \<and> \<not> (\<exists>U. python_tables U
            \<and> \<not> (spec_phone_shaped U (ustr ''12345678'')
                  \<and> contact_line U (ustr ''12345678'') = ustr ''12345678''))"
proof -
  have a: "ascii (ustr ''12345678'')" by code_simp
  have 1: "spec_phone_shaped ascii_tables (ustr ''12345678'')" by code_simp
  have 2: "contact_line ascii_tables (ustr ''12345678'') = ustr ''12345678''" by code_simp
  have 3: "ustr ''12345678'' \<noteq> ustr ''Phone: 12345678''" by code_simp
  show ?thesis
    using 1 2 3 contact_line_ascii [OF _ a] spec_phone_shaped_ascii [OF _ a] by auto
qed

text \<open>
  Claim C2, amended. For a HEADER section that is not empty, the formatter emits the
  first content line converted to upper case (by \<^verbatim>\<open>str.upper\<close>), followed by a blank line;
  then, when there are more lines, these lines joined by newlines, with a newline after
  them; and no banner with the label. For the content \<^verbatim>\<open>John Doe\<close> the block is
  \<^verbatim>\<open>JOHN DOE\<close> and two newlines.
\<close>

theorem format_header_block:
  "section_blocks U (ustr ''HEADER'') (first # others) =
     (str_upper U first @ [newline, newline])
       # (if others = [] then [] else [join_nl others @ [newline]])
   \<and> formatted_text U (before @ (ustr ''HEADER'', first # others) # after) =
       formatted_text U before
       @ (str_upper U first @ [newline, newline])
           # (if others = [] then [] else [join_nl others @ [newline]])
       @ formatted_text U after
   \<and> (python_tables U \<longrightarrow>
        section_blocks U (ustr ''HEADER'') [ustr ''John Doe''] = [ustr ''JOHN DOE\<newline>\<newline>''])"
proof -
  have 1: "section_blocks U (ustr ''HEADER'') (first # others) =
     (str_upper U first @ [newline, newline])
       # (if others = [] then [] else [join_nl others @ [newline]])"
    for first others
    by (cases others) (simp_all add: section_blocks_def)
  have a: "ascii (ustr ''John Doe'')" by code_simp
  have u: "str_upper ascii_tables (ustr ''John Doe'') @ [newline, newline] = ustr ''JOHN DOE\<newline>\<newline>''"
    by code_simp
  have 2: "section_blocks U (ustr ''HEADER'') [ustr ''John Doe''] = [ustr ''JOHN DOE\<newline>\<newline>'']"
    if "python_tables U"
    using python_upper [OF that a] u by (simp add: 1)
  show ?thesis using 1 [of first others] 2 by (simp add: formatted_text_def)
qed

theorem format_header_block_witness:
  "python_tables ascii_tables
   \<and> section_blocks ascii_tables (ustr ''HEADER'') [ustr ''John Doe''] = [ustr ''JOHN DOE\<newline>\<newline>'']
   \<and> section_blocks ascii_tables (ustr ''HEADER'') [ustr ''John Doe'', ustr ''Engineer'', ustr ''Oslo'']
       = [ustr ''JOHN DOE\<newline>\<newline>'', ustr ''Engineer\<newline>Oslo\<newline>'']"
proof -
  have "(str_upper ascii_tables (ustr ''John Doe'') @ [newline, newline])
       # (if [ustr ''Engineer'', ustr ''Oslo''] = [] then []
          else [join_nl [ustr ''Engineer'', ustr ''Oslo''] @ [newline]])
     = [ustr ''JOHN DOE\<newline>\<newline>'', ustr ''Engineer\<newline>Oslo\<newline>'']"
    by code_simp
  then show ?thesis
    using format_header_block [of ascii_tables "ustr ''John Doe''" "[ustr ''Engineer'', ustr ''Oslo'']"]
      python_tables_ascii_tables
    by simp
qed

text \<open>
  The first line is not emitted unchanged: \<^verbatim>\<open>content[0].upper()\<close> turns \<^verbatim>\<open>John Doe\<close> into
  \<^verbatim>\<open>JOHN DOE\<close>, for all tables with the entries of Python for ASCII.
\<close>

theorem format_header_counterexample:
  "concat (section_blocks ascii_tables (ustr ''HEADER'') [ustr ''John Doe''])
     = ustr ''JOHN DOE\<newline>\<newline>''
   \<and> concat (section_blocks ascii_tables (ustr ''HEADER'') [ustr ''John Doe''])
     \<noteq> ustr ''John Doe\<newline>\<newline>''
   \<and> format_sections ascii_tables [(ustr ''HEADER'', [ustr ''John Doe''])] = ustr ''JOHN DOE''
   \<and> \<not> (\<exists>U. python_tables U
            \<and> concat (section_blocks U (ustr ''HEADER'') [ustr ''John Doe''])
                = ustr ''John Doe\<newline>\<newline>'')"
proof -
  have a: "ascii (ustr ''John Doe'')" by code_simp
  have 1: "concat (section_blocks ascii_tables (ustr ''HEADER'') [ustr ''John Doe''])
     = ustr ''JOHN DOE\<newline>\<newline>''" by code_simp
  have 2: "ustr ''JOHN DOE\<newline>\<newline>'' \<noteq> ustr ''John Doe\<newline>\<newline>''" by code_simp
  have 3: "format_sections ascii_tables [(ustr ''HEADER'', [ustr ''John Doe''])] = ustr ''JOHN DOE''"
    by code_simp
  have 4: "section_blocks U (ustr ''HEADER'') [ustr ''John Doe'']
      = section_blocks ascii_tables (ustr ''HEADER'') [ustr ''John Doe'']" if "python_tables U" for U
    using python_upper [OF that a] by (simp add: section_blocks_def)
  show ?thesis using 1 2 3 4 by auto
qed

end
